theory Spec2Isabelle
  imports Main "HOL-Library.Multiset" "HOL-Library.Code_Target_Nat"
begin

section \<open>Text and the library operations the program relies on\<close>

text \<open>
  A Python \<open>str\<close> is a sequence of Unicode code points; a code point is modelled as a
  natural number and a string as a list of them.
\<close>

type_synonym str = "nat list"

text \<open>
  \<open>s.replace(old, new)\<close>: every non-overlapping occurrence of \<open>old\<close>, found scanning
  from the left, is replaced by \<open>new\<close>. (For an empty \<open>old\<close> Python inserts \<open>new\<close>
  before every character and at the end; the program never does that.)
\<close>

function str_replace :: "'a list \<Rightarrow> 'a list \<Rightarrow> 'a list \<Rightarrow> 'a list" where
  "str_replace old new [] = (if old = [] then new else [])"
| "str_replace old new (x # xs) =
     (if old = [] then new @ x # str_replace old new xs
      else if take (length old) (x # xs) = old
        then new @ str_replace old new (drop (length old) (x # xs))
      else x # str_replace old new xs)"
  by pat_completeness auto
termination
  by (relation "measure (\<lambda>(old, new, s). length s)") auto

text \<open>
  \<open>re.match(p, s)\<close> used as a truth value, for the two shapes of pattern the program
  passes: a character class (one character of \<open>s\<close> must exist and lie in the class) and
  a literal string (which must be a prefix of \<open>s\<close>).
\<close>

definition re_match_class :: "(nat \<Rightarrow> bool) \<Rightarrow> str \<Rightarrow> bool" where
  "re_match_class P s = (case s of [] \<Rightarrow> False | c # _ \<Rightarrow> P c)"

definition re_match_lit :: "str \<Rightarrow> str \<Rightarrow> bool" where
  "re_match_lit lit s = (take (length lit) s = lit)"

text \<open>
  \<open>re.split('(' + p + ')', s)\<close> for a pattern that never matches the empty string. The
  matcher \<open>m\<close> gives, for the text at the current position, the length of the match of
  \<open>p\<close> that starts there (\<open>None\<close> when there is none). The result alternates the text
  between matches (possibly empty) and, because of the capturing group, the matches
  themselves; \<open>pend\<close> is the unmatched text collected since the last match.
\<close>

function re_split :: "(str \<Rightarrow> nat option) \<Rightarrow> str \<Rightarrow> str \<Rightarrow> str list" where
  "re_split m pend [] = [pend]"
| "re_split m pend (c # r) =
     (case m (c # r) of
        None \<Rightarrow> re_split m (pend @ [c]) r
      | Some n \<Rightarrow>
          if n = 0 then re_split m (pend @ [c]) r
          else pend # take n (c # r) # re_split m [] (drop n (c # r)))"
  by pat_completeness auto
termination
  by (relation "measure (\<lambda>(m, pend, s). length s)") auto

section \<open>Character classes\<close>

definition CONS :: "nat \<Rightarrow> bool" where
  "CONS c \<longleftrightarrow> 0x1780 \<le> c \<and> c \<le> 0x17A2"

definition RO :: nat where
  "RO = 0x179A"

definition INDEPVOWEL :: "nat \<Rightarrow> bool" where
  "INDEPVOWEL c \<longleftrightarrow> 0x17A3 \<le> c \<and> c \<le> 0x17B3"

definition DEPVOWEL :: "nat \<Rightarrow> bool" where
  "DEPVOWEL c \<longleftrightarrow> 0x17B6 \<le> c \<and> c \<le> 0x17C5"

definition COENG :: nat where
  "COENG = 0x17D2"

definition DIACRITIC :: "nat \<Rightarrow> bool" where
  "DIACRITIC c \<longleftrightarrow> (0x17C6 \<le> c \<and> c \<le> 0x17D1) \<or> c = 0x17DD"

definition REGSHIFTER :: "nat \<Rightarrow> bool" where
  "REGSHIFTER c \<longleftrightarrow> c = 0x17C9 \<or> c = 0x17CA"

definition ROBAT :: nat where
  "ROBAT = 0x17CC"

definition ZEROWIDTH :: "nat \<Rightarrow> bool" where
  "ZEROWIDTH c \<longleftrightarrow> (0x200B \<le> c \<and> c \<le> 0x200D) \<or> c = 0x00AD \<or> c = 0x2063"

definition SPACING :: "nat \<Rightarrow> bool" where
  "SPACING c \<longleftrightarrow> c = 0x17C7 \<or> c = 0x17C8"

definition NONSPACING :: "nat \<Rightarrow> bool" where
  "NONSPACING c \<longleftrightarrow> c = 0x17C6 \<or> c = 0x17CB \<or> (0x17CD \<le> c \<and> c \<le> 0x17D1) \<or> c = 0x17DD"

definition CONS_OR_INDEPVOWEL :: "nat \<Rightarrow> bool" where
  "CONS_OR_INDEPVOWEL c \<longleftrightarrow> CONS c \<or> INDEPVOWEL c"

definition COENG_RO :: str where
  "COENG_RO = [COENG, RO]"

section \<open>The syllable and chunk patterns\<close>

text \<open>
  \<open>COENG+(?:CONS|INDEPVOWEL)\<close> at the start of \<open>s\<close>: the length of the match. The greedy
  \<open>COENG+\<close> takes the whole run of coengs; giving some of them back cannot help, since
  the character after a shorter run is a coeng, which is no consonant or independent
  vowel.
\<close>

definition match_coeng_cluster :: "str \<Rightarrow> nat option" where
  "match_coeng_cluster s =
     (let n = length (takeWhile (\<lambda>c. c = COENG) s)
      in if 0 < n \<and> n < length s \<and> CONS_OR_INDEPVOWEL (s ! n) then Some (Suc n) else None)"

text \<open>The class \<open>(?:DEPVOWEL|DIACRITIC|ZEROWIDTH)\<close> of \<open>SYLLPAT\<close>.\<close>

definition syll_mark :: "nat \<Rightarrow> bool" where
  "syll_mark c \<longleftrightarrow> DEPVOWEL c \<or> DIACRITIC c \<or> ZEROWIDTH c"

text \<open>
  The starred group \<open>(?:COENG+(?:CONS|INDEPVOWEL)|(?:DEPVOWEL|DIACRITIC|ZEROWIDTH)+)*\<close>:
  the length of its greedy match at the start of \<open>s\<close>. The two alternatives begin with
  characters of disjoint classes and nothing follows the star in \<open>SYLLPAT\<close>, so the
  first, longest choice is never retracted.
\<close>

function match_syll_tail :: "str \<Rightarrow> nat" where
  "match_syll_tail s =
     (case match_coeng_cluster s of
        Some n \<Rightarrow> n + match_syll_tail (drop n s)
      | None \<Rightarrow>
          (let n = length (takeWhile syll_mark s)
           in if n = 0 then 0 else n + match_syll_tail (drop n s)))"
  by pat_completeness auto
termination
proof (relation "measure length")
  show "wf (measure length)" by simp
next
  fix s :: str and n
  assume "match_coeng_cluster s = Some n"
  then have "0 < n" "n \<le> length s"
    by (auto simp: match_coeng_cluster_def Let_def split: if_splits)
  then show "(drop n s, s) \<in> measure length" by simp
next
  fix s :: str and n
  assume "n = length (takeWhile syll_mark s)" "n \<noteq> 0"
  then have "0 < n" "n \<le> length s"
    by (auto simp: length_takeWhile_le)
  then show "(drop n s, s) \<in> measure length" by simp
qed

declare match_syll_tail.simps [simp del]

text \<open>\<open>SYLLPAT\<close>: a consonant or independent vowel, then the starred group.\<close>

definition match_SYLLPAT :: "str \<Rightarrow> nat option" where
  "match_SYLLPAT s =
     (case s of
        [] \<Rightarrow> None
      | c # r \<Rightarrow> if CONS_OR_INDEPVOWEL c then Some (Suc (match_syll_tail r)) else None)"

text \<open>
  \<open>CHUNKPAT\<close>, \<open>(?:COENG+(?:CONS|INDEPVOWEL)REGSHIFTER?)|.\<close>: a coeng chunk with its
  optional register shifter, or else any one character except a newline (the dot of a
  pattern compiled without flags).
\<close>

definition match_CHUNKPAT :: "str \<Rightarrow> nat option" where
  "match_CHUNKPAT s =
     (case match_coeng_cluster s of
        Some n \<Rightarrow> if n < length s \<and> REGSHIFTER (s ! n) then Some (Suc n) else Some n
      | None \<Rightarrow>
          (case s of
             [] \<Rightarrow> None
           | c # _ \<Rightarrow> if c \<noteq> 0x0A then Some 1 else None))"

text \<open>
  \<open>re.sub(COENG + '+', COENG, c)\<close>: every maximal run of coengs becomes one coeng.
\<close>

function sub_COENG_run :: "str \<Rightarrow> str" where
  "sub_COENG_run [] = []"
| "sub_COENG_run (c # r) =
     (if c = COENG then COENG # sub_COENG_run (dropWhile (\<lambda>x. x = COENG) r)
      else c # sub_COENG_run r)"
  by pat_completeness auto
termination
  by (relation "measure length") (auto simp: less_Suc_eq_le length_dropWhile_le)

section \<open>regularizeText\<close>

definition regularizeText :: "str \<Rightarrow> str" where
  "regularizeText text0 =
     (let text1 = str_replace [0x17A8] [0x17A7, 0x1780] text0;
          text2 = str_replace [0x17A3] [0x17A2] text1;
          text3 = str_replace [0x17A4] [0x17A2, 0x17B6] text2;
          text4 = str_replace [0x17B2] [0x17B1] text3;
          text5 = str_replace [0x17B4] [] text4;
          text6 = str_replace [0x17B5] [] text5;
          text7 = str_replace [0x17DD] [0x17D1] text6;
          text8 = str_replace [0x17D3] [0x17C6] text7;
          text9 = str_replace [0x17D8] [0x17D4, 0x179B, 0x17D4] text8
      in text9)"

section \<open>reorderSyll\<close>

text \<open>The six lists that the classification loop fills.\<close>

record buckets =
  dv :: "str list"
  coeng :: "str list"
  nonsp :: "str list"
  sp :: "str list"
  rs :: "str list"
  robat :: "str list"

definition no_buckets :: buckets where
  "no_buckets = \<lparr>dv = [], coeng = [], nonsp = [], sp = [], rs = [], robat = []\<rparr>"

text \<open>One turn of \<open>for c in chunks\<close>: the \<open>if\<close>/\<open>elif\<close> chain, which has no \<open>else\<close>.\<close>

definition classify_chunk :: "str \<Rightarrow> buckets \<Rightarrow> buckets" where
  "classify_chunk c b =
     (if re_match_class DEPVOWEL c then b\<lparr>dv := dv b @ [c]\<rparr>
      else if re_match_lit [COENG] c then b\<lparr>coeng := coeng b @ [sub_COENG_run c]\<rparr>
      else if re_match_class NONSPACING c then b\<lparr>nonsp := nonsp b @ [c]\<rparr>
      else if re_match_class SPACING c then b\<lparr>sp := sp b @ [c]\<rparr>
      else if re_match_class REGSHIFTER c then b\<lparr>rs := rs b @ [c]\<rparr>
      else if re_match_lit [ROBAT] c then b\<lparr>robat := robat b @ [c]\<rparr>
      else b)"

definition classify :: "str list \<Rightarrow> buckets" where
  "classify chunks = fold classify_chunk chunks no_buckets"

text \<open>
  The loop that moves the coeng+ro chunks:
  \<open>for i in range(len(coeng) - 1): if coeng[i] and re.match(COENG_RO, coeng[i]): ...\<close>.
  The bound is computed once, before the list grows.
\<close>

definition is_coeng_ro :: "str \<Rightarrow> bool" where
  "is_coeng_ro c \<longleftrightarrow> c \<noteq> [] \<and> re_match_lit COENG_RO c"

definition ro_step :: "nat \<Rightarrow> str list \<Rightarrow> str list" where
  "ro_step i cs = (if is_coeng_ro (cs ! i) then (cs @ [cs ! i])[i := []] else cs)"

definition ro_last :: "str list \<Rightarrow> str list" where
  "ro_last cs = fold ro_step [0..<length cs - 1] cs"

text \<open>
  The loop that blanks an element equal to its successor:
  \<open>for i in range(1, len(chunks)): if chunks[i] == chunks[i - 1]: chunks[i - 1] = ''\<close>.
\<close>

definition dup_step :: "nat \<Rightarrow> str list \<Rightarrow> str list" where
  "dup_step i cs = (if cs ! i = cs ! (i - 1) then cs[i - 1 := []] else cs)"

definition blank_dups :: "str list \<Rightarrow> str list" where
  "blank_dups cs = fold dup_step [1..<length cs] cs"

text \<open>The chunks of the tail, \<open>[c for c in re.split('(' + CHUNKPAT + ')', syll[1:]) if c]\<close>.\<close>

definition chunks_of :: "str \<Rightarrow> str list" where
  "chunks_of tail = filter (\<lambda>c. c \<noteq> []) (re_split match_CHUNKPAT [] tail)"

text \<open>
  The list \<open>[base] + rs + robat + coeng + dv + nonsp + sp\<close>, built from the syllable
  after classification and the ro loop.
\<close>

definition assemble :: "str \<Rightarrow> str list" where
  "assemble syll =
     (let base = take 1 syll;
          b = classify (chunks_of (drop 1 syll))
      in [base] @ rs b @ robat b @ ro_last (coeng b) @ dv b @ nonsp b @ sp b)"

text \<open>The syllable joined again after the duplicate loop, before the three fusions.\<close>

definition rejoin :: "str \<Rightarrow> str" where
  "rejoin syll = concat (filter (\<lambda>c. c \<noteq> []) (blank_dups (assemble syll)))"

definition fuse1 :: "str \<Rightarrow> str" where
  "fuse1 = str_replace [0x17C1, 0x17B8] [0x17BE]"

definition fuse2 :: "str \<Rightarrow> str" where
  "fuse2 = str_replace [0x17B8, 0x17C1] [0x17BE]"

definition fuse3 :: "str \<Rightarrow> str" where
  "fuse3 = str_replace [0x17C1, 0x17B6] [0x17C4]"

definition reorderSyll :: "str \<Rightarrow> str" where
  "reorderSyll syll =
     (if length syll > 1 \<and> re_match_class CONS_OR_INDEPVOWEL syll
      then fuse3 (fuse2 (fuse1 (rejoin syll)))
      else syll)"

section \<open>reorderText\<close>

definition syllables :: "str \<Rightarrow> str list" where
  "syllables text0 = filter (\<lambda>s. s \<noteq> []) (re_split match_SYLLPAT [] text0)"

definition reorderText :: "str \<Rightarrow> str" where
  "reorderText text0 = concat (map reorderSyll (syllables (regularizeText text0)))"

section \<open>Notions used in the statements and proofs\<close>

text \<open>
  What the duplicate loop computes: an element followed by an equal one is blanked, the
  others stay.
\<close>

fun blank_rec :: "str list \<Rightarrow> str list" where
  "blank_rec [] = []"
| "blank_rec [x] = [x]"
| "blank_rec (x # y # r) = (if y = x then [] else x) # blank_rec (y # r)"

text \<open>What the ro loop computes on a list without its last element.\<close>

definition blank_ro :: "str \<Rightarrow> str" where
  "blank_ro c = (if is_coeng_ro c then [] else c)"

text \<open>An element that is empty or does not begin with a base character.\<close>

definition mark_led :: "str \<Rightarrow> bool" where
  "mark_led e \<longleftrightarrow> e = [] \<or> \<not> CONS_OR_INDEPVOWEL (hd e)"

text \<open>The shapes a chunk of the tail can have.\<close>

definition coeng_chunk_char :: "nat \<Rightarrow> bool" where
  "coeng_chunk_char x \<longleftrightarrow> x = COENG \<or> CONS_OR_INDEPVOWEL x \<or> REGSHIFTER x"

definition chunk_shape :: "str \<Rightarrow> bool" where
  "chunk_shape c \<longleftrightarrow>
     length c = 1 \<or> (c \<noteq> [] \<and> set c \<subseteq> {0x0A}) \<or>
     (c \<noteq> [] \<and> hd c = COENG \<and> (\<forall>x \<in> set c. coeng_chunk_char x))"

text \<open>
  Two occurrences of fusion sources overlap exactly where one of the three strings
  U+17C1 U+17B8 U+17C1, U+17B8 U+17C1 U+17B8 or U+17B8 U+17C1 U+17B6 occurs; \<open>no_overlap\<close>
  says that none of them is a substring.
\<close>

fun no_overlap :: "str \<Rightarrow> bool" where
  "no_overlap (x # y # z # r) =
     (\<not> (x = 0x17C1 \<and> y = 0x17B8 \<and> z = 0x17C1) \<and>
      \<not> (x = 0x17B8 \<and> y = 0x17C1 \<and> z = 0x17B8) \<and>
      \<not> (x = 0x17B8 \<and> y = 0x17C1 \<and> z = 0x17B6) \<and>
      no_overlap (y # z # r))"
| "no_overlap [x, y] = True"
| "no_overlap [x] = True"
| "no_overlap [] = True"

text \<open>
  One pass from the left that applies those of the three fusions whose flag is set.
\<close>

fun fuse_pass :: "bool \<Rightarrow> bool \<Rightarrow> bool \<Rightarrow> str \<Rightarrow> str" where
  "fuse_pass e1 e2 e3 (x # y # r) =
     (if e1 \<and> x = 0x17C1 \<and> y = 0x17B8 then 0x17BE # fuse_pass e1 e2 e3 r
      else if e2 \<and> x = 0x17B8 \<and> y = 0x17C1 then 0x17BE # fuse_pass e1 e2 e3 r
      else if e3 \<and> x = 0x17C1 \<and> y = 0x17B6 then 0x17C4 # fuse_pass e1 e2 e3 r
      else x # fuse_pass e1 e2 e3 (y # r))"
| "fuse_pass e1 e2 e3 [x] = [x]"
| "fuse_pass e1 e2 e3 [] = []"

text \<open>A chunk that passes one of the six tests of the classification chain.\<close>

definition classified :: "str \<Rightarrow> bool" where
  "classified c \<longleftrightarrow>
     re_match_class DEPVOWEL c \<or> re_match_lit [COENG] c \<or> re_match_class NONSPACING c \<or>
     re_match_class SPACING c \<or> re_match_class REGSHIFTER c \<or> re_match_lit [ROBAT] c"

text \<open>
  A tail that \<open>SYLLPAT\<close> consumes whole, and the chunks such a tail is cut into, as they
  stand in the buckets: a single mark, or one coeng with its consonant or independent
  vowel and possibly a register shifter.
\<close>

definition wf_tail :: "str \<Rightarrow> bool" where
  "wf_tail t \<longleftrightarrow> match_syll_tail t = length t"

fun proper_chunk :: "str \<Rightarrow> bool" where
  "proper_chunk [x] = (syll_mark x \<and> \<not> ZEROWIDTH x)"
| "proper_chunk [c, b] = (c = COENG \<and> CONS_OR_INDEPVOWEL b)"
| "proper_chunk [c, b, r] = (c = COENG \<and> CONS_OR_INDEPVOWEL b \<and> REGSHIFTER r)"
| "proper_chunk _ = False"

text \<open>The position of a chunk's bucket in the reassembled list.\<close>

definition bucket_rank :: "str \<Rightarrow> nat" where
  "bucket_rank c =
     (if re_match_class REGSHIFTER c then 0
      else if re_match_lit [ROBAT] c then 1
      else if re_match_lit [COENG] c then 2
      else if re_match_class DEPVOWEL c then 3
      else if re_match_class NONSPACING c then 4
      else if re_match_class SPACING c then 5
      else 6)"

text \<open>Two given code points stand next to each other, in this order.\<close>

fun adj_pair :: "nat \<Rightarrow> nat \<Rightarrow> str \<Rightarrow> bool" where
  "adj_pair p q (x # y # r) = ((x = p \<and> y = q) \<or> adj_pair p q (y # r))"
| "adj_pair p q [x] = False"
| "adj_pair p q [] = False"

text \<open>
  A syllable whose reordered form, cut into chunks again, has no two equal chunks next
  to each other and at most one coeng+ro chunk. The first condition fails when a fusion
  produces a vowel equal to its neighbour, or when the two copies of a chunk stood on
  both sides of a chunk that the ro loop moved away; the second fails when the syllable
  keeps two different coeng+ro chunks.
\<close>

definition settled :: "str \<Rightarrow> bool" where
  "settled s \<longleftrightarrow>
     distinct_adj (chunks_of (drop 1 (reorderSyll s))) \<and>
     length (filter is_coeng_ro (chunks_of (drop 1 (reorderSyll s)))) \<le> 1"

text \<open>The segments of a text, each reordered, joined again.\<close>

definition reordered :: "str \<Rightarrow> str" where
  "reordered u = concat (map reorderSyll (re_split match_SYLLPAT [] u))"

section \<open>Facts about the library operations\<close>

lemma str_replace_single_Cons:
  "str_replace [a] new (x # xs) =
     (if x = a then new @ str_replace [a] new xs else x # str_replace [a] new xs)"
  by simp

lemma mem_str_replace_single:
  "x \<in> set (str_replace [a] new s) \<longleftrightarrow>
     (x \<in> set s \<and> x \<noteq> a) \<or> (x \<in> set new \<and> a \<in> set s)"
  by (induction s) (auto simp del: str_replace.simps(2) simp add: str_replace_single_Cons)

lemma str_replace_single_absent:
  "a \<notin> set s \<Longrightarrow> str_replace [a] new s = s"
  by (induction s) (auto simp del: str_replace.simps(2) simp add: str_replace_single_Cons)

lemma re_split_no_match:
  "(\<And>c r. c \<in> set s \<Longrightarrow> m (c # r) = None) \<Longrightarrow> re_split m pend s = [pend @ s]"
  by (induction s arbitrary: pend) auto

section \<open>The two loops of reorderSyll in closed form\<close>

lemma blank_rec_length: "length (blank_rec cs) = length cs"
  by (induction cs rule: blank_rec.induct) auto

lemma blank_rec_nth:
  "j < length cs \<Longrightarrow>
   blank_rec cs ! j = (if Suc j < length cs \<and> cs ! Suc j = cs ! j then [] else cs ! j)"
proof (induction cs arbitrary: j rule: blank_rec.induct)
  case (3 x y r)
  then show ?case by (cases j) auto
qed auto

lemma dup_fold_nth:
  assumes "k \<le> length cs" "j < length cs"
  shows "length (fold dup_step [1..<k] cs) = length cs \<and>
         fold dup_step [1..<k] cs ! j =
           (if Suc j < k \<and> cs ! Suc j = cs ! j then [] else cs ! j)"
  using assms
proof (induction k arbitrary: j)
  case 0
  then show ?case by simp
next
  case (Suc k)
  show ?case
  proof (cases "k = 0")
    case True
    then show ?thesis by simp
  next
    case False
    then have up: "[1..<Suc k] = [1..<k] @ [k]" by simp
    let ?xs = "fold dup_step [1..<k] cs"
    have len: "length ?xs = length cs"
      using Suc.IH [of j] Suc.prems by simp
    have k: "k < length cs" using Suc.prems by simp
    have xk: "?xs ! k = cs ! k"
      using Suc.IH [of k] k by simp
    have xk1: "?xs ! (k - 1) = cs ! (k - 1)"
      using Suc.IH [of "k - 1"] k False by simp
    have xj: "?xs ! j = (if Suc j < k \<and> cs ! Suc j = cs ! j then [] else cs ! j)"
      using Suc.IH [of j] Suc.prems by simp
    have step: "fold dup_step [1..<Suc k] cs = dup_step k ?xs"
      unfolding up by simp
    show ?thesis
    proof (cases "cs ! k = cs ! (k - 1)")
      case True
      have "dup_step k ?xs = ?xs[k - 1 := []]"
        unfolding dup_step_def xk xk1 using True by simp
      then show ?thesis
        unfolding step using len xj True False Suc.prems
        by (cases "j = k - 1") (auto simp: nth_list_update less_Suc_eq)
    next
      case neq: False
      have "dup_step k ?xs = ?xs"
        unfolding dup_step_def xk xk1 using neq by simp
      then show ?thesis
        unfolding step using len xj neq False Suc.prems
        by (cases "j = k - 1") (auto simp: less_Suc_eq)
    qed
  qed
qed

lemma blank_dups_eq: "blank_dups cs = blank_rec cs"
proof (rule nth_equalityI)
  show "length (blank_dups cs) = length (blank_rec cs)"
  proof (cases cs)
    case Nil then show ?thesis by (simp add: blank_dups_def)
  next
    case (Cons a r)
    then show ?thesis
      using dup_fold_nth [of "length cs" cs 0] by (simp add: blank_dups_def blank_rec_length)
  qed
next
  fix j assume "j < length (blank_dups cs)"
  then have j: "j < length cs"
    using dup_fold_nth [of "length cs" cs 0] by (cases cs) (auto simp: blank_dups_def)
  then show "blank_dups cs ! j = blank_rec cs ! j"
    using dup_fold_nth [of "length cs" cs j] by (simp add: blank_dups_def blank_rec_nth)
qed

lemma ro_fold:
  "k \<le> length cs - 1 \<Longrightarrow>
   fold ro_step [0..<k] cs = map blank_ro (take k cs) @ drop k cs @ filter is_coeng_ro (take k cs)"
proof (induction k)
  case 0
  then show ?case by simp
next
  case (Suc k)
  then have k: "k < length cs" by simp
  let ?xs = "map blank_ro (take k cs) @ drop k cs @ filter is_coeng_ro (take k cs)"
  have fx: "fold ro_step [0..<k] cs = ?xs" using Suc by simp
  have dk: "drop k cs = cs ! k # drop (Suc k) cs"
    using k by (simp add: Cons_nth_drop_Suc)
  have xk: "?xs ! k = cs ! k"
    using k by (simp add: nth_append dk)
  have tk: "take (Suc k) cs = take k cs @ [cs ! k]"
    using k by (simp add: take_Suc_conv_app_nth)
  have lk: "length (map blank_ro (take k cs)) = k" using k by simp
  have step: "fold ro_step [0..<Suc k] cs = ro_step k ?xs"
    using fx by simp
  show ?case
  proof (cases "is_coeng_ro (cs ! k)")
    case True
    have "(?xs @ [cs ! k])[k := []] =
          map blank_ro (take k cs) @ ((drop k cs @ filter is_coeng_ro (take k cs) @ [cs ! k])[0 := []])"
      using lk by (simp add: list_update_append)
    also have "\<dots> = map blank_ro (take k cs) @ [] # drop (Suc k) cs @ filter is_coeng_ro (take k cs) @ [cs ! k]"
      by (simp add: dk)
    finally have "ro_step k ?xs =
        map blank_ro (take k cs) @ [] # drop (Suc k) cs @ filter is_coeng_ro (take k cs) @ [cs ! k]"
      unfolding ro_step_def xk using True by simp
    then show ?thesis
      unfolding step tk using True by (simp add: blank_ro_def)
  next
    case False
    have "ro_step k ?xs = ?xs"
      unfolding ro_step_def xk using False by simp
    then show ?thesis
      unfolding step tk using False by (simp add: blank_ro_def dk)
  qed
qed

lemma ro_last_eq:
  "ro_last cs =
     (if cs = [] then []
      else map blank_ro (butlast cs) @ [last cs] @ filter is_coeng_ro (butlast cs))"
proof (cases "cs = []")
  case True
  then show ?thesis by (simp add: ro_last_def)
next
  case False
  then have "drop (length cs - 1) cs = [last cs]"
    by (metis append_butlast_last_id append_eq_conv_conj length_butlast)
  then show ?thesis
    using False ro_fold [of "length cs - 1" cs] by (simp add: ro_last_def butlast_conv_take)
qed

lemma re_split_concat: "concat (re_split m pend s) = pend @ s"
proof (induction m pend s rule: re_split.induct)
  case (1 m pend)
  then show ?case by simp
next
  case (2 m pend c r)
  then show ?case
    by (cases "m (c # r)") (auto simp del: take_Suc_Cons drop_Suc_Cons)
qed

section \<open>The classification loop in closed form\<close>

lemmas class_defs = CONS_OR_INDEPVOWEL_def CONS_def INDEPVOWEL_def DEPVOWEL_def COENG_def
  DIACRITIC_def REGSHIFTER_def ROBAT_def ZEROWIDTH_def SPACING_def NONSPACING_def RO_def

lemma re_match_lit_single: "re_match_lit [a] c \<longleftrightarrow> re_match_class (\<lambda>x. x = a) c"
  by (cases c) (auto simp: re_match_lit_def re_match_class_def)

lemma classify_chunk_dv:
  "dv (classify_chunk c b) = dv b @ (if re_match_class DEPVOWEL c then [c] else [])"
  by (simp add: classify_chunk_def)

lemma classify_chunk_coeng:
  "coeng (classify_chunk c b) =
     coeng b @ (if re_match_lit [COENG] c then [sub_COENG_run c] else [])"
  by (cases c) (auto simp: classify_chunk_def re_match_lit_single re_match_class_def class_defs)

lemma classify_chunk_nonsp:
  "nonsp (classify_chunk c b) = nonsp b @ (if re_match_class NONSPACING c then [c] else [])"
  by (cases c) (auto simp: classify_chunk_def re_match_lit_single re_match_class_def class_defs)

lemma classify_chunk_sp:
  "sp (classify_chunk c b) = sp b @ (if re_match_class SPACING c then [c] else [])"
  by (cases c) (auto simp: classify_chunk_def re_match_lit_single re_match_class_def class_defs)

lemma classify_chunk_rs:
  "rs (classify_chunk c b) = rs b @ (if re_match_class REGSHIFTER c then [c] else [])"
  by (cases c) (auto simp: classify_chunk_def re_match_lit_single re_match_class_def class_defs)

lemma classify_chunk_robat:
  "robat (classify_chunk c b) = robat b @ (if re_match_lit [ROBAT] c then [c] else [])"
  by (cases c) (auto simp: classify_chunk_def re_match_lit_single re_match_class_def class_defs)

lemma fold_classify_dv:
  "dv (fold classify_chunk cs b) = dv b @ filter (re_match_class DEPVOWEL) cs"
  by (induction cs arbitrary: b) (simp_all add: classify_chunk_dv)

lemma fold_classify_coeng:
  "coeng (fold classify_chunk cs b) =
     coeng b @ map sub_COENG_run (filter (re_match_lit [COENG]) cs)"
  by (induction cs arbitrary: b) (simp_all add: classify_chunk_coeng)

lemma fold_classify_nonsp:
  "nonsp (fold classify_chunk cs b) = nonsp b @ filter (re_match_class NONSPACING) cs"
  by (induction cs arbitrary: b) (simp_all add: classify_chunk_nonsp)

lemma fold_classify_sp:
  "sp (fold classify_chunk cs b) = sp b @ filter (re_match_class SPACING) cs"
  by (induction cs arbitrary: b) (simp_all add: classify_chunk_sp)

lemma fold_classify_rs:
  "rs (fold classify_chunk cs b) = rs b @ filter (re_match_class REGSHIFTER) cs"
  by (induction cs arbitrary: b) (simp_all add: classify_chunk_rs)

lemma fold_classify_robat:
  "robat (fold classify_chunk cs b) = robat b @ filter (re_match_lit [ROBAT]) cs"
  by (induction cs arbitrary: b) (simp_all add: classify_chunk_robat)

lemma classify_buckets:
  "dv (classify cs) = filter (re_match_class DEPVOWEL) cs"
  "coeng (classify cs) = map sub_COENG_run (filter (re_match_lit [COENG]) cs)"
  "nonsp (classify cs) = filter (re_match_class NONSPACING) cs"
  "sp (classify cs) = filter (re_match_class SPACING) cs"
  "rs (classify cs) = filter (re_match_class REGSHIFTER) cs"
  "robat (classify cs) = filter (re_match_lit [ROBAT]) cs"
  by (simp_all add: classify_def no_buckets_def fold_classify_dv fold_classify_coeng
      fold_classify_nonsp fold_classify_sp fold_classify_rs fold_classify_robat)

lemma sub_COENG_run_hd: "re_match_lit [COENG] c \<Longrightarrow> re_match_lit [COENG] (sub_COENG_run c)"
  by (cases c) (auto simp: re_match_lit_def)

section \<open>The reassembled list\<close>

lemma blank_rec_Cons:
  "blank_rec (x # r) = (if r \<noteq> [] \<and> hd r = x then [] else x) # blank_rec r"
  by (cases r) auto

lemma concat_filter_nonempty: "concat (filter (\<lambda>c. c \<noteq> []) xs) = concat xs"
  by (induction xs) auto

lemma rejoin_eq: "rejoin syll = concat (blank_rec (assemble syll))"
  by (simp add: rejoin_def blank_dups_eq concat_filter_nonempty)

lemma str_replace_pair_skip:
  "x \<noteq> a \<Longrightarrow> str_replace [a, b] new (x # xs) = x # str_replace [a, b] new xs"
  by simp

lemma set_ro_last: "set (ro_last cs) \<subseteq> insert [] (set cs)"
proof (cases "cs = []")
  case True
  then show ?thesis by (simp add: ro_last_eq)
next
  case False
  have "set (butlast cs) \<subseteq> set cs"
    by (meson in_set_butlastD subsetI)
  then show ?thesis
    using False by (auto simp: ro_last_eq blank_ro_def)
qed

lemma mark_led_buckets:
  "\<forall>e \<in> set (dv (classify cs)). mark_led e"
  "\<forall>e \<in> set (coeng (classify cs)). mark_led e"
  "\<forall>e \<in> set (nonsp (classify cs)). mark_led e"
  "\<forall>e \<in> set (sp (classify cs)). mark_led e"
  "\<forall>e \<in> set (rs (classify cs)). mark_led e"
  "\<forall>e \<in> set (robat (classify cs)). mark_led e"
proof -
  have cls: "mark_led e" if "e \<noteq> []" and
      "DEPVOWEL (hd e) \<or> hd e = COENG \<or> NONSPACING (hd e) \<or> SPACING (hd e) \<or>
       REGSHIFTER (hd e) \<or> hd e = ROBAT" for e
    using that by (auto simp: mark_led_def class_defs)
  show "\<forall>e \<in> set (dv (classify cs)). mark_led e"
    by (auto simp: classify_buckets re_match_class_def intro!: cls split: list.splits)
  show "\<forall>e \<in> set (nonsp (classify cs)). mark_led e"
    by (auto simp: classify_buckets re_match_class_def intro!: cls split: list.splits)
  show "\<forall>e \<in> set (sp (classify cs)). mark_led e"
    by (auto simp: classify_buckets re_match_class_def intro!: cls split: list.splits)
  show "\<forall>e \<in> set (rs (classify cs)). mark_led e"
    by (auto simp: classify_buckets re_match_class_def intro!: cls split: list.splits)
  show "\<forall>e \<in> set (robat (classify cs)). mark_led e"
    by (auto simp: classify_buckets re_match_lit_single re_match_class_def intro!: cls
        split: list.splits)
  show "\<forall>e \<in> set (coeng (classify cs)). mark_led e"
  proof
    fix e assume "e \<in> set (coeng (classify cs))"
    then obtain c where "re_match_lit [COENG] c" "e = sub_COENG_run c"
      by (auto simp: classify_buckets)
    then have "re_match_lit [COENG] e"
      by (simp add: sub_COENG_run_hd)
    then show "mark_led e"
      by (intro cls) (auto simp: re_match_lit_single re_match_class_def split: list.splits)
  qed
qed

lemma assemble_Cons:
  "assemble (b # t) = [b] # (rs (classify (chunks_of t)) @ robat (classify (chunks_of t)) @
      ro_last (coeng (classify (chunks_of t))) @ dv (classify (chunks_of t)) @
      nonsp (classify (chunks_of t)) @ sp (classify (chunks_of t)))"
  by (simp add: assemble_def Let_def)

lemma assemble_tail_mark_led: "\<forall>e \<in> set (tl (assemble (b # t))). mark_led e"
proof -
  have "\<forall>e \<in> set (ro_last (coeng (classify (chunks_of t)))). mark_led e"
    using set_ro_last [of "coeng (classify (chunks_of t))"] mark_led_buckets(2) [of "chunks_of t"]
    by (auto simp: mark_led_def)
  then show ?thesis
    using mark_led_buckets [of "chunks_of t"] by (auto simp: assemble_Cons)
qed

section \<open>The chunks of a tail\<close>

lemma match_coeng_cluster_shape:
  assumes "match_coeng_cluster s = Some n"
  shows "2 \<le> n \<and> n \<le> length s \<and> hd s = COENG \<and>
         (\<forall>x \<in> set (take n s). x = COENG \<or> CONS_OR_INDEPVOWEL x)"
proof -
  let ?k = "length (takeWhile (\<lambda>c. c = COENG) s)"
  have n: "n = Suc ?k" and k: "0 < ?k" "?k < length s" and base: "CONS_OR_INDEPVOWEL (s ! ?k)"
    using assms by (auto simp: match_coeng_cluster_def Let_def split: if_splits)
  have tk: "take ?k s = takeWhile (\<lambda>c. c = COENG) s"
    by (simp add: takeWhile_eq_take [symmetric])
  have "take n s = takeWhile (\<lambda>c. c = COENG) s @ [s ! ?k]"
    using k tk by (simp add: n take_Suc_conv_app_nth)
  then have chars: "\<forall>x \<in> set (take n s). x = COENG \<or> CONS_OR_INDEPVOWEL x"
    using base by (auto dest: set_takeWhileD)
  have "hd s = COENG"
    using k(1) by (cases s) (auto split: if_splits)
  moreover from n k(1) have "2 \<le> n"
    by arith
  ultimately show ?thesis
    using n k(2) chars by simp
qed

lemma match_CHUNKPAT_shape:
  assumes "match_CHUNKPAT s = Some n"
  shows "0 < n \<and> n \<le> length s \<and> chunk_shape (take n s)"
proof (cases "match_coeng_cluster s")
  case None
  then show ?thesis
    using assms by (cases s) (auto simp: match_CHUNKPAT_def chunk_shape_def split: if_splits)
next
  case (Some k)
  note sh = match_coeng_cluster_shape [OF Some]
  then have hd: "hd (take k s) = COENG" "hd (take (Suc k) s) = COENG" "s \<noteq> []"
    by (cases s; cases k; auto)+
  show ?thesis
  proof (cases "k < length s \<and> REGSHIFTER (s ! k)")
    case True
    then have n: "n = Suc k"
      using assms Some by (simp add: match_CHUNKPAT_def)
    have "take (Suc k) s = take k s @ [s ! k]"
      using True by (simp add: take_Suc_conv_app_nth)
    then have "\<forall>x \<in> set (take (Suc k) s). coeng_chunk_char x"
      using sh True by (auto simp: coeng_chunk_char_def)
    then show ?thesis
      using n True hd by (auto simp: chunk_shape_def)
  next
    case False
    then have n: "n = k"
      using assms Some by (auto simp: match_CHUNKPAT_def)
    have "\<forall>x \<in> set (take k s). coeng_chunk_char x"
      using sh by (auto simp: coeng_chunk_char_def)
    then show ?thesis
      using n sh hd by (auto simp: chunk_shape_def)
  qed
qed

lemma match_CHUNKPAT_None: "match_CHUNKPAT (c # r) = None \<Longrightarrow> c = 0x0A"
  by (auto simp: match_CHUNKPAT_def split: option.splits if_splits)

lemma re_split_CHUNKPAT_shape:
  "m = match_CHUNKPAT \<Longrightarrow> set pend \<subseteq> {0x0A} \<Longrightarrow>
   \<forall>c \<in> set (re_split m pend s). c = [] \<or> chunk_shape c"
proof (induction m pend s rule: re_split.induct)
  case (1 m pend)
  then show ?case by (auto simp: chunk_shape_def)
next
  case (2 m pend c r)
  note m = \<open>m = match_CHUNKPAT\<close>
  show ?case
  proof (cases "m (c # r)")
    case None
    then have "set (pend @ [c]) \<subseteq> {0x0A}"
      using "2.prems" match_CHUNKPAT_None by auto
    then show ?thesis
      using None "2.IH"(1) m by simp
  next
    case (Some n)
    note sh = match_CHUNKPAT_shape [OF Some [unfolded m]]
    then have "n \<noteq> 0" by simp
    moreover have "\<forall>x \<in> set (re_split m [] (drop n (c # r))). x = [] \<or> chunk_shape x"
      using "2.IH"(3) [OF Some \<open>n \<noteq> 0\<close>] m by simp
    moreover have "pend = [] \<or> chunk_shape pend"
      using "2.prems" by (auto simp: chunk_shape_def)
    ultimately show ?thesis
      using Some sh by (simp del: take_Suc_Cons drop_Suc_Cons)
  qed
qed

lemma chunks_of_shape: "\<forall>c \<in> set (chunks_of t). chunk_shape c"
  using re_split_CHUNKPAT_shape [of match_CHUNKPAT "[]" t] by (auto simp: chunks_of_def)

lemma chunks_of_concat: "concat (chunks_of t) = t"
  by (simp add: chunks_of_def concat_filter_nonempty re_split_concat)

section \<open>More on the duplicate loop and the fusions\<close>

lemma blank_rec_append:
  "xs = [] \<or> ys = [] \<or> last xs \<noteq> hd ys \<Longrightarrow>
   blank_rec (xs @ ys) = blank_rec xs @ blank_rec ys"
proof (induction xs)
  case Nil
  then show ?case by simp
next
  case (Cons x xs)
  show ?case
  proof (cases "xs = []")
    case True
    then show ?thesis
      using Cons.prems by (cases ys) auto
  next
    case False
    then have "blank_rec (xs @ ys) = blank_rec xs @ blank_rec ys"
      using Cons by auto
    then show ?thesis
      using False by (simp add: blank_rec_Cons)
  qed
qed

lemma concat_blank_rec_replicate: "c \<noteq> [] \<Longrightarrow> concat (blank_rec (replicate (Suc n) c)) = c"
  by (induction n) (simp_all add: blank_rec_Cons)

lemma set_concat_blank_rec: "set (concat (blank_rec xs)) \<subseteq> set (concat xs)"
  by (induction xs rule: blank_rec.induct) auto

lemma str_replace_pair_prefix:
  "a \<notin> set pre \<Longrightarrow> str_replace [a, b] new (pre @ s) = pre @ str_replace [a, b] new s"
  by (induction pre) (auto simp: str_replace_pair_skip simp del: str_replace.simps)

lemma set_str_replace_subset: "set (str_replace old new s) \<subseteq> set s \<union> set new"
proof (induction old new s rule: str_replace.induct)
  case (1 old new)
  then show ?case by auto
next
  case (2 old new x xs)
  have "set (drop (length old) (x # xs)) \<subseteq> set (x # xs)"
    by (rule set_drop_subset)
  then show ?case
    using 2 by (auto simp del: drop_Suc_Cons take_Suc_Cons)
qed

lemma set_sub_COENG_run: "set (sub_COENG_run c) \<subseteq> set c"
proof (induction c rule: sub_COENG_run.induct)
  case 1
  then show ?case by simp
next
  case (2 c r)
  have "set (dropWhile (\<lambda>x. x = COENG) r) \<subseteq> set r"
    by (auto dest: set_dropWhileD)
  then show ?case
    using 2 by auto
qed

section \<open>The robat chunk\<close>

lemma chunk_without_robat:
  assumes "chunk_shape c" "hd c \<noteq> ROBAT"
  shows "ROBAT \<notin> set c"
proof -
  consider "length c = 1" | "set c \<subseteq> {0x0A}" | "\<forall>x \<in> set c. coeng_chunk_char x"
    using assms(1) by (auto simp: chunk_shape_def)
  then show ?thesis
  proof cases
    case 1
    then obtain x where "c = [x]"
      by (cases c) auto
    then show ?thesis
      using assms(2) by simp
  next
    case 2
    then show ?thesis
      by (auto simp: ROBAT_def)
  next
    case 3
    moreover have "\<not> coeng_chunk_char ROBAT"
      by (simp add: coeng_chunk_char_def class_defs)
    ultimately show ?thesis
      by blast
  qed
qed

lemma robat_chunk_present:
  assumes "ROBAT \<in> set t"
  shows "[ROBAT] \<in> set (chunks_of t)"
proof -
  have "ROBAT \<in> set (concat (chunks_of t))"
    using assms by (simp add: chunks_of_concat)
  then obtain c where c: "c \<in> set (chunks_of t)" "ROBAT \<in> set c"
    by auto
  then have sh: "chunk_shape c"
    using chunks_of_shape by blast
  then have "hd c = ROBAT"
    using c(2) chunk_without_robat by blast
  moreover have "length c = 1"
    using sh c(2) by (auto simp: chunk_shape_def coeng_chunk_char_def class_defs)
  ultimately have "c = [ROBAT]"
    by (cases c) auto
  then show ?thesis
    using c(1) by simp
qed

lemma single_char_chunk:
  assumes "chunk_shape c" "c \<noteq> []" "hd c \<noteq> COENG" "hd c \<noteq> 0x0A"
  shows "c = [hd c]"
proof -
  have "hd c \<in> set c"
    using assms(2) by simp
  then have "\<not> set c \<subseteq> {0x0A}"
    using assms(4) by auto
  then have "length c = 1"
    using assms(1,3) by (simp add: chunk_shape_def)
  then show ?thesis
    by (cases c) auto
qed

lemma robat_bucket:
  "robat (classify (chunks_of t)) =
     replicate (length (robat (classify (chunks_of t)))) [ROBAT]"
proof (rule replicate_length_same [symmetric], rule ballI)
  fix c assume "c \<in> set (robat (classify (chunks_of t)))"
  then have c: "c \<in> set (chunks_of t)" "re_match_lit [ROBAT] c"
    by (auto simp: classify_buckets)
  have hd: "c \<noteq> []" "hd c = ROBAT"
    using c(2) by (cases c, simp add: re_match_lit_def, simp add: re_match_lit_def)+
  have "chunk_shape c"
    using c(1) chunks_of_shape by blast
  then have "c = [hd c]"
    using hd by (intro single_char_chunk) (simp_all add: class_defs)
  then show "c = [ROBAT]"
    using hd(2) by simp
qed

lemma rs_bucket:
  assumes "e \<in> set (rs (classify (chunks_of t)))"
  shows "\<exists>x. e = [x] \<and> REGSHIFTER x"
proof -
  have e: "e \<in> set (chunks_of t)" "re_match_class REGSHIFTER e"
    using assms by (auto simp: classify_buckets)
  have hd: "e \<noteq> []" "REGSHIFTER (hd e)"
    using e(2) by (cases e, simp add: re_match_class_def, simp add: re_match_class_def)+
  have "chunk_shape e"
    using e(1) chunks_of_shape by blast
  then have "e = [hd e]"
    using hd by (intro single_char_chunk) (auto simp: class_defs)
  then show ?thesis
    using hd(2) by blast
qed

lemma later_buckets_without_robat:
  assumes "e \<in> set (ro_last (coeng (classify (chunks_of t))) @ dv (classify (chunks_of t)) @
              nonsp (classify (chunks_of t)) @ sp (classify (chunks_of t)))"
  shows "ROBAT \<notin> set e"
proof -
  have plain: "ROBAT \<notin> set c"
    if "c \<in> set (chunks_of t)"
      "re_match_class DEPVOWEL c \<or> re_match_lit [COENG] c \<or> re_match_class NONSPACING c \<or>
       re_match_class SPACING c" for c
  proof -
    have "chunk_shape c"
      using that(1) chunks_of_shape by blast
    moreover have "hd c \<noteq> ROBAT"
      using that(2)
      by (cases c) (auto simp: re_match_class_def re_match_lit_def class_defs)
    ultimately show ?thesis
      by (rule chunk_without_robat)
  qed
  have "ROBAT \<notin> set x" if x: "x \<in> set (coeng (classify (chunks_of t)))" for x
  proof -
    obtain c where "c \<in> set (chunks_of t)" "re_match_lit [COENG] c" "x = sub_COENG_run c"
      using x by (auto simp: classify_buckets)
    then show ?thesis
      using plain [of c] set_sub_COENG_run [of c] by auto
  qed
  then have "ROBAT \<notin> set x" if "x \<in> set (ro_last (coeng (classify (chunks_of t))))" for x
    using that set_ro_last [of "coeng (classify (chunks_of t))"] by auto
  then show ?thesis
    using assms plain by (auto simp: classify_buckets)
qed

section \<open>The coeng bucket\<close>

lemma coeng_bucket_nonempty: "e \<in> set (coeng (classify cs)) \<Longrightarrow> e \<noteq> []"
proof -
  assume "e \<in> set (coeng (classify cs))"
  then obtain c where "re_match_lit [COENG] c" "e = sub_COENG_run c"
    by (auto simp: classify_buckets)
  then have "re_match_lit [COENG] e"
    by (simp add: sub_COENG_run_hd)
  then show "e \<noteq> []"
    by (auto simp: re_match_lit_def)
qed

lemma filter_blank_ro:
  "\<forall>e \<in> set xs. e \<noteq> [] \<Longrightarrow>
   filter (\<lambda>c. c \<noteq> []) (map blank_ro xs) = filter (\<lambda>c. \<not> is_coeng_ro c) xs"
  by (induction xs) (auto simp: blank_ro_def)

lemma filter_ro_nonempty: "filter (\<lambda>c. is_coeng_ro c \<and> c \<noteq> []) xs = filter is_coeng_ro xs"
  by (induction xs) (auto simp: is_coeng_ro_def)

lemma ro_last_nonempty:
  assumes "\<forall>e \<in> set cs. e \<noteq> []"
  shows "filter (\<lambda>c. c \<noteq> []) (ro_last cs) =
           filter (\<lambda>c. \<not> is_coeng_ro c) cs @
           (if cs \<noteq> [] \<and> is_coeng_ro (last cs) then [last cs] else []) @
           filter is_coeng_ro (butlast cs)"
proof (cases "cs = []")
  case True
  then show ?thesis by (simp add: ro_last_eq)
next
  case False
  then have cs: "cs = butlast cs @ [last cs]"
    by simp
  have ne: "\<forall>e \<in> set (butlast cs). e \<noteq> []" "last cs \<noteq> []"
    using assms False by (auto dest: in_set_butlastD)
  have "filter (\<lambda>c. \<not> is_coeng_ro c) cs =
        filter (\<lambda>c. \<not> is_coeng_ro c) (butlast cs) @ (if is_coeng_ro (last cs) then [] else [last cs])"
    by (subst cs) simp
  then show ?thesis
    using False ne by (simp add: ro_last_eq filter_blank_ro filter_ro_nonempty)
qed

section \<open>The three fusions\<close>

lemma str_replace_pair_Nil: "str_replace [p, q] new [] = []"
  by simp

lemma str_replace_pair_single: "str_replace [p, q] new [x] = [x]"
  by simp

lemma str_replace_pair_Cons:
  "str_replace [p, q] new (x # y # r) =
     (if x = p \<and> y = q then new @ str_replace [p, q] new r
      else x # str_replace [p, q] new (y # r))"
  by simp

lemmas str_replace_pair = str_replace_pair_Nil str_replace_pair_single str_replace_pair_Cons

lemma no_overlap_tl: "no_overlap (x # s) \<Longrightarrow> no_overlap s"
  by (induction s rule: no_overlap.induct) auto

lemma fuse_pass_none: "fuse_pass False False False s = s"
  by (induction s rule: induct_list012) auto

lemma str_replace_pair_hit:
  "str_replace [p, q] new (p # q # s) = new @ str_replace [p, q] new s"
  by simp

lemma str_replace_pair_skip_hd:
  "s = [] \<or> hd s \<noteq> q \<Longrightarrow> str_replace [p, q] new (x # s) = x # str_replace [p, q] new s"
  by (cases s) (auto simp: str_replace_pair simp del: str_replace.simps)

lemma fuse_pass_hd:
  "fuse_pass e1 e2 e3 (y # r) \<noteq> [] \<and>
   (hd (fuse_pass e1 e2 e3 (y # r)) = y \<or> hd (fuse_pass e1 e2 e3 (y # r)) = 0x17BE \<or>
    hd (fuse_pass e1 e2 e3 (y # r)) = 0x17C4)"
  by (cases r) auto

lemma fuse_pass_miss:
  "\<not> (e1 \<and> x = 0x17C1 \<and> y = 0x17B8) \<Longrightarrow> \<not> (e2 \<and> x = 0x17B8 \<and> y = 0x17C1) \<Longrightarrow>
   \<not> (e3 \<and> x = 0x17C1 \<and> y = 0x17B6) \<Longrightarrow>
   fuse_pass e1 e2 e3 (x # y # r) = x # fuse_pass e1 e2 e3 (y # r)"
  by auto

lemma fuse_pass_miss1:
  "r = [] \<or> (\<not> (e1 \<and> x = 0x17C1 \<and> hd r = 0x17B8) \<and> \<not> (e2 \<and> x = 0x17B8 \<and> hd r = 0x17C1) \<and>
     \<not> (e3 \<and> x = 0x17C1 \<and> hd r = 0x17B6)) \<Longrightarrow>
   fuse_pass e1 e2 e3 (x # r) = x # fuse_pass e1 e2 e3 r"
  by (cases r) auto

lemma fuse1_pass:
  "no_overlap s \<Longrightarrow> fuse1 (fuse_pass False e2 e3 s) = fuse_pass True e2 e3 s"
proof (induction s rule: induct_list012)
  case 1
  then show ?case by (simp add: fuse1_def)
next
  case (2 x)
  then show ?case by (simp add: fuse1_def)
next
  case (3 x y zs)
  have no: "no_overlap (y # zs)" "no_overlap zs"
    using "3.prems" no_overlap_tl by blast+
  note IH = "3.IH"(1) [OF no(2)] "3.IH"(2) [OF no(1)]
  consider (two) "e2 \<and> x = 0x17B8 \<and> y = 0x17C1" | (three) "e3 \<and> x = 0x17C1 \<and> y = 0x17B6"
    | (one) "x = 0x17C1 \<and> y = 0x17B8"
    | (none) "\<not> (e2 \<and> x = 0x17B8 \<and> y = 0x17C1)" "\<not> (e3 \<and> x = 0x17C1 \<and> y = 0x17B6)"
        "\<not> (x = 0x17C1 \<and> y = 0x17B8)"
    by blast
  then show ?case
  proof cases
    case two
    then have "fuse_pass False e2 e3 (x # y # zs) = 0x17BE # fuse_pass False e2 e3 zs"
      "fuse_pass True e2 e3 (x # y # zs) = 0x17BE # fuse_pass True e2 e3 zs"
      by simp_all
    then show ?thesis
      using IH(1) by (simp add: fuse1_def str_replace_pair_skip del: str_replace.simps)
  next
    case three
    then have "fuse_pass False e2 e3 (x # y # zs) = 0x17C4 # fuse_pass False e2 e3 zs"
      "fuse_pass True e2 e3 (x # y # zs) = 0x17C4 # fuse_pass True e2 e3 zs"
      by simp_all
    then show ?thesis
      using IH(1) by (simp add: fuse1_def str_replace_pair_skip del: str_replace.simps)
  next
    case one
    have "zs = [] \<or> \<not> (e2 \<and> hd zs = 0x17C1)"
      using one "3.prems" by (cases zs) auto
    then have "fuse_pass False e2 e3 (y # zs) = y # fuse_pass False e2 e3 zs"
      using one by (intro fuse_pass_miss1) auto
    then have "fuse_pass False e2 e3 (x # y # zs) = 0x17C1 # 0x17B8 # fuse_pass False e2 e3 zs"
      using one by simp
    moreover have "fuse_pass True e2 e3 (x # y # zs) = 0x17BE # fuse_pass True e2 e3 zs"
      using one by simp
    ultimately show ?thesis
      using IH(1) by (simp add: fuse1_def str_replace_pair_hit del: str_replace.simps fuse_pass.simps)
  next
    case none
    then have P: "fuse_pass False e2 e3 (x # y # zs) = x # fuse_pass False e2 e3 (y # zs)"
      and PT: "fuse_pass True e2 e3 (x # y # zs) = x # fuse_pass True e2 e3 (y # zs)"
      by (simp_all add: fuse_pass_miss del: fuse_pass.simps)
    have "x \<noteq> 0x17C1 \<or> hd (fuse_pass False e2 e3 (y # zs)) \<noteq> 0x17B8"
      using none(3) fuse_pass_hd [of False e2 e3 y zs] by auto
    then have "fuse1 (x # fuse_pass False e2 e3 (y # zs)) = x # fuse1 (fuse_pass False e2 e3 (y # zs))"
      unfolding fuse1_def
      using str_replace_pair_skip [of x "0x17C1"] str_replace_pair_skip_hd [of _ "0x17B8"]
      by blast
    then show ?thesis
      using IH(2) P PT by simp
  qed
qed

lemma fuse2_pass:
  "no_overlap s \<Longrightarrow> fuse2 (fuse_pass e1 False e3 s) = fuse_pass e1 True e3 s"
proof (induction s rule: induct_list012)
  case 1
  then show ?case by (simp add: fuse2_def)
next
  case (2 x)
  then show ?case by (simp add: fuse2_def)
next
  case (3 x y zs)
  have no: "no_overlap (y # zs)" "no_overlap zs"
    using "3.prems" no_overlap_tl by blast+
  note IH = "3.IH"(1) [OF no(2)] "3.IH"(2) [OF no(1)]
  consider (one) "e1 \<and> x = 0x17C1 \<and> y = 0x17B8" | (three) "e3 \<and> x = 0x17C1 \<and> y = 0x17B6"
    | (two) "x = 0x17B8 \<and> y = 0x17C1"
    | (none) "\<not> (e1 \<and> x = 0x17C1 \<and> y = 0x17B8)" "\<not> (e3 \<and> x = 0x17C1 \<and> y = 0x17B6)"
        "\<not> (x = 0x17B8 \<and> y = 0x17C1)"
    by blast
  then show ?case
  proof cases
    case one
    then have "fuse_pass e1 False e3 (x # y # zs) = 0x17BE # fuse_pass e1 False e3 zs"
      "fuse_pass e1 True e3 (x # y # zs) = 0x17BE # fuse_pass e1 True e3 zs"
      by simp_all
    then show ?thesis
      using IH(1) by (simp add: fuse2_def str_replace_pair_skip del: str_replace.simps)
  next
    case three
    then have "fuse_pass e1 False e3 (x # y # zs) = 0x17C4 # fuse_pass e1 False e3 zs"
      "fuse_pass e1 True e3 (x # y # zs) = 0x17C4 # fuse_pass e1 True e3 zs"
      by simp_all
    then show ?thesis
      using IH(1) by (simp add: fuse2_def str_replace_pair_skip del: str_replace.simps)
  next
    case two
    have "zs = [] \<or> (\<not> (e1 \<and> hd zs = 0x17B8) \<and> \<not> (e3 \<and> hd zs = 0x17B6))"
      using two "3.prems" by (cases zs) auto
    then have "fuse_pass e1 False e3 (y # zs) = y # fuse_pass e1 False e3 zs"
      using two by (intro fuse_pass_miss1) auto
    then have "fuse_pass e1 False e3 (x # y # zs) = 0x17B8 # 0x17C1 # fuse_pass e1 False e3 zs"
      using two by simp
    moreover have "fuse_pass e1 True e3 (x # y # zs) = 0x17BE # fuse_pass e1 True e3 zs"
      using two by simp
    ultimately show ?thesis
      using IH(1) by (simp add: fuse2_def str_replace_pair_hit del: str_replace.simps fuse_pass.simps)
  next
    case none
    then have P: "fuse_pass e1 False e3 (x # y # zs) = x # fuse_pass e1 False e3 (y # zs)"
      and PT: "fuse_pass e1 True e3 (x # y # zs) = x # fuse_pass e1 True e3 (y # zs)"
      by (simp_all add: fuse_pass_miss del: fuse_pass.simps)
    have "x \<noteq> 0x17B8 \<or> hd (fuse_pass e1 False e3 (y # zs)) \<noteq> 0x17C1"
      using none(3) fuse_pass_hd [of e1 False e3 y zs] by auto
    then have "fuse2 (x # fuse_pass e1 False e3 (y # zs)) = x # fuse2 (fuse_pass e1 False e3 (y # zs))"
      unfolding fuse2_def
      using str_replace_pair_skip [of x "0x17B8"] str_replace_pair_skip_hd [of _ "0x17C1"]
      by blast
    then show ?thesis
      using IH(2) P PT by simp
  qed
qed

lemma fuse3_pass:
  "no_overlap s \<Longrightarrow> fuse3 (fuse_pass e1 e2 False s) = fuse_pass e1 e2 True s"
proof (induction s rule: induct_list012)
  case 1
  then show ?case by (simp add: fuse3_def)
next
  case (2 x)
  then show ?case by (simp add: fuse3_def)
next
  case (3 x y zs)
  have no: "no_overlap (y # zs)" "no_overlap zs"
    using "3.prems" no_overlap_tl by blast+
  note IH = "3.IH"(1) [OF no(2)] "3.IH"(2) [OF no(1)]
  consider (one) "e1 \<and> x = 0x17C1 \<and> y = 0x17B8" | (two) "e2 \<and> x = 0x17B8 \<and> y = 0x17C1"
    | (three) "x = 0x17C1 \<and> y = 0x17B6"
    | (none) "\<not> (e1 \<and> x = 0x17C1 \<and> y = 0x17B8)" "\<not> (e2 \<and> x = 0x17B8 \<and> y = 0x17C1)"
        "\<not> (x = 0x17C1 \<and> y = 0x17B6)"
    by blast
  then show ?case
  proof cases
    case one
    then have "fuse_pass e1 e2 False (x # y # zs) = 0x17BE # fuse_pass e1 e2 False zs"
      "fuse_pass e1 e2 True (x # y # zs) = 0x17BE # fuse_pass e1 e2 True zs"
      by simp_all
    then show ?thesis
      using IH(1) by (simp add: fuse3_def str_replace_pair_skip del: str_replace.simps)
  next
    case two
    then have "fuse_pass e1 e2 False (x # y # zs) = 0x17BE # fuse_pass e1 e2 False zs"
      "fuse_pass e1 e2 True (x # y # zs) = 0x17BE # fuse_pass e1 e2 True zs"
      by simp_all
    then show ?thesis
      using IH(1) by (simp add: fuse3_def str_replace_pair_skip del: str_replace.simps)
  next
    case three
    have "fuse_pass e1 e2 False (y # zs) = y # fuse_pass e1 e2 False zs"
      using three by (intro fuse_pass_miss1) auto
    then have "fuse_pass e1 e2 False (x # y # zs) = 0x17C1 # 0x17B6 # fuse_pass e1 e2 False zs"
      using three by simp
    moreover have "fuse_pass e1 e2 True (x # y # zs) = 0x17C4 # fuse_pass e1 e2 True zs"
      using three by simp
    ultimately show ?thesis
      using IH(1) by (simp add: fuse3_def str_replace_pair_hit del: str_replace.simps fuse_pass.simps)
  next
    case none
    then have P: "fuse_pass e1 e2 False (x # y # zs) = x # fuse_pass e1 e2 False (y # zs)"
      and PT: "fuse_pass e1 e2 True (x # y # zs) = x # fuse_pass e1 e2 True (y # zs)"
      by (simp_all add: fuse_pass_miss del: fuse_pass.simps)
    have "x \<noteq> 0x17C1 \<or> hd (fuse_pass e1 e2 False (y # zs)) \<noteq> 0x17B6"
      using none(3) fuse_pass_hd [of e1 e2 False y zs] by auto
    then have "fuse3 (x # fuse_pass e1 e2 False (y # zs)) = x # fuse3 (fuse_pass e1 e2 False (y # zs))"
      unfolding fuse3_def
      using str_replace_pair_skip [of x "0x17C1"] str_replace_pair_skip_hd [of _ "0x17B6"]
      by blast
    then show ?thesis
      using IH(2) P PT by simp
  qed
qed

section \<open>Counting code points\<close>

lemma syllables_concat: "concat (syllables t) = t"
  by (simp add: syllables_def concat_filter_nonempty re_split_concat)

lemma length_str_replace_pair: "length (str_replace [p, q] [n] s) \<le> length s"
  by (induction s rule: induct_list012)
     (auto simp: str_replace_pair simp del: str_replace.simps)

lemma length_sub_COENG_run: "length (sub_COENG_run c) \<le> length c"
proof (induction c rule: sub_COENG_run.induct)
  case 1
  then show ?case by simp
next
  case (2 c r)
  have "length (dropWhile (\<lambda>x. x = COENG) r) \<le> length r"
    by (rule length_dropWhile_le)
  then show ?case
    using 2 by auto
qed

lemma length_concat_blank_rec: "length (concat (blank_rec xs)) \<le> length (concat xs)"
  by (induction xs rule: blank_rec.induct) auto

lemma mset_concat_blank_ro:
  "mset (concat (map blank_ro xs)) + mset (concat (filter is_coeng_ro xs)) = mset (concat xs)"
  by (induction xs) (auto simp: blank_ro_def)

lemma mset_concat_ro_last: "mset (concat (ro_last cs)) = mset (concat cs)"
proof (cases "cs = []")
  case True
  then show ?thesis by (simp add: ro_last_eq)
next
  case False
  then have "mset (concat cs) = mset (concat (butlast cs)) + mset (last cs)"
    by (metis append_butlast_last_id concat.simps(1) concat.simps(2) concat_append mset_append self_append_conv)
  then show ?thesis
    using False mset_concat_blank_ro [of "butlast cs"] by (simp add: ro_last_eq)
qed

lemma length_concat_ro_last: "length (concat (ro_last cs)) = length (concat cs)"
  using mset_concat_ro_last [of cs] by (metis size_mset)

lemma chunk_tests_length:
  "(if re_match_class REGSHIFTER c then length c else 0) +
   (if re_match_lit [ROBAT] c then length c else 0) +
   (if re_match_lit [COENG] c then length (sub_COENG_run c) else 0) +
   (if re_match_class DEPVOWEL c then length c else 0) +
   (if re_match_class NONSPACING c then length c else 0) +
   (if re_match_class SPACING c then length c else 0) \<le> length c"
proof (cases c)
  case Nil
  then show ?thesis
    by (simp add: re_match_class_def re_match_lit_def)
next
  case (Cons x xs)
  have "length (sub_COENG_run c) \<le> length c"
    by (rule length_sub_COENG_run)
  then show ?thesis
    unfolding Cons re_match_lit_single re_match_class_def list.case class_defs
    by (auto simp del: sub_COENG_run.simps)
qed

lemma chunk_tests_mset:
  assumes "classified c" "sub_COENG_run c = c"
  shows "(if re_match_class REGSHIFTER c then mset c else {#}) +
   (if re_match_lit [ROBAT] c then mset c else {#}) +
   (if re_match_lit [COENG] c then mset (sub_COENG_run c) else {#}) +
   (if re_match_class DEPVOWEL c then mset c else {#}) +
   (if re_match_class NONSPACING c then mset c else {#}) +
   (if re_match_class SPACING c then mset c else {#}) = mset c"
proof (cases c)
  case Nil
  then show ?thesis
    using assms(1) by (simp add: classified_def re_match_class_def re_match_lit_def)
next
  case (Cons x xs)
  show ?thesis
    using assms unfolding classified_def
    unfolding Cons re_match_lit_single re_match_class_def list.case class_defs
    by (auto simp del: sub_COENG_run.simps)
qed

lemma filter_Cons_length:
  "length (concat (filter P (c # cs))) = (if P c then length c else 0) + length (concat (filter P cs))"
  by simp

lemma filter_Cons_mset:
  "mset (concat (filter P (c # cs))) = (if P c then mset c else {#}) + mset (concat (filter P cs))"
  by simp

lemma buckets_length:
  "length (concat (rs (classify cs))) + length (concat (robat (classify cs))) +
   length (concat (coeng (classify cs))) + length (concat (dv (classify cs))) +
   length (concat (nonsp (classify cs))) + length (concat (sp (classify cs)))
   \<le> length (concat cs)"
proof (induction cs)
  case Nil
  then show ?case by (simp add: classify_buckets)
next
  case (Cons c cs)
  have coeng: "length (concat (map sub_COENG_run (filter (re_match_lit [COENG]) (c # cs)))) =
      (if re_match_lit [COENG] c then length (sub_COENG_run c) else 0) +
      length (concat (map sub_COENG_run (filter (re_match_lit [COENG]) cs)))"
    by simp
  show ?case
    using Cons chunk_tests_length [of c]
    unfolding classify_buckets filter_Cons_length coeng
    by (simp only: concat.simps length_append)
qed

lemma buckets_mset:
  assumes "\<forall>c \<in> set cs. classified c \<and> sub_COENG_run c = c"
  shows "mset (concat (rs (classify cs))) + mset (concat (robat (classify cs))) +
   mset (concat (coeng (classify cs))) + mset (concat (dv (classify cs))) +
   mset (concat (nonsp (classify cs))) + mset (concat (sp (classify cs)))
   = mset (concat cs)"
  using assms
proof (induction cs)
  case Nil
  then show ?case by (simp add: classify_buckets)
next
  case (Cons c cs)
  have coeng: "mset (concat (map sub_COENG_run (filter (re_match_lit [COENG]) (c # cs)))) =
      (if re_match_lit [COENG] c then mset (sub_COENG_run c) else {#}) +
      mset (concat (map sub_COENG_run (filter (re_match_lit [COENG]) cs)))"
    by simp
  have c: "classified c" "sub_COENG_run c = c"
    using Cons.prems by simp_all
  define A where "A =
   (if re_match_class REGSHIFTER c then mset c else {#}) +
   (if re_match_lit [ROBAT] c then mset c else {#}) +
   (if re_match_lit [COENG] c then mset (sub_COENG_run c) else {#}) +
   (if re_match_class DEPVOWEL c then mset c else {#}) +
   (if re_match_class NONSPACING c then mset c else {#}) +
   (if re_match_class SPACING c then mset c else {#})"
  define B where "B =
   mset (concat (filter (re_match_class REGSHIFTER) cs)) +
   mset (concat (filter (re_match_lit [ROBAT]) cs)) +
   mset (concat (map sub_COENG_run (filter (re_match_lit [COENG]) cs))) +
   mset (concat (filter (re_match_class DEPVOWEL) cs)) +
   mset (concat (filter (re_match_class NONSPACING) cs)) +
   mset (concat (filter (re_match_class SPACING) cs))"
  have A: "A = mset c"
    unfolding A_def by (rule chunk_tests_mset [OF c])
  have B: "B = mset (concat cs)"
    unfolding B_def using Cons by (simp add: classify_buckets)
  have "mset (concat (rs (classify (c # cs)))) + mset (concat (robat (classify (c # cs)))) +
   mset (concat (coeng (classify (c # cs)))) + mset (concat (dv (classify (c # cs)))) +
   mset (concat (nonsp (classify (c # cs)))) + mset (concat (sp (classify (c # cs)))) = A + B"
    unfolding classify_buckets filter_Cons_mset coeng A_def B_def
    by (simp only: ac_simps)
  then show ?case
    by (simp add: A B)
qed

lemma length_concat_assemble: "length (concat (assemble syll)) \<le> length syll"
proof -
  let ?B = "classify (chunks_of (drop 1 syll))"
  have "length (concat (assemble syll)) =
      length (take 1 syll) + (length (concat (rs ?B)) + length (concat (robat ?B)) +
        length (concat (ro_last (coeng ?B))) + length (concat (dv ?B)) +
        length (concat (nonsp ?B)) + length (concat (sp ?B)))"
    by (simp add: assemble_def Let_def)
  also have "\<dots> \<le> length (take 1 syll) + length (concat (chunks_of (drop 1 syll)))"
    using buckets_length [of "chunks_of (drop 1 syll)"]
    by (simp only: length_concat_ro_last add_le_cancel_left)
  also have "\<dots> = length syll"
    by (simp add: chunks_of_concat)
  finally show ?thesis .
qed

lemma length_rejoin: "length (rejoin syll) \<le> length syll"
  using length_concat_blank_rec [of "assemble syll"] length_concat_assemble [of syll]
  by (simp add: rejoin_eq)

lemma length_reorderSyll: "length (reorderSyll syll) \<le> length syll"
proof -
  have "length (fuse3 (fuse2 (fuse1 (rejoin syll)))) \<le> length (rejoin syll)"
    unfolding fuse1_def fuse2_def fuse3_def
    by (meson length_str_replace_pair order_trans)
  then show ?thesis
    using length_rejoin [of syll] by (simp add: reorderSyll_def)
qed

lemma length_concat_map_reorderSyll:
  "length (concat (map reorderSyll xs)) \<le> length (concat xs)"
  by (induction xs) (simp_all add: add_mono length_reorderSyll)

lemma mset_rejoin:
  assumes "\<forall>c \<in> set (chunks_of (drop 1 syll)). classified c \<and> sub_COENG_run c = c"
    and "blank_dups (assemble syll) = assemble syll"
  shows "mset (rejoin syll) = mset syll"
proof -
  let ?B = "classify (chunks_of (drop 1 syll))"
  have "rejoin syll = concat (assemble syll)"
    by (simp add: rejoin_def assms(2) concat_filter_nonempty)
  then have "mset (rejoin syll) =
      mset (take 1 syll) + (mset (concat (rs ?B)) + mset (concat (robat ?B)) +
        mset (concat (ro_last (coeng ?B))) + mset (concat (dv ?B)) +
        mset (concat (nonsp ?B)) + mset (concat (sp ?B)))"
    by (simp add: assemble_def Let_def)
  also have "\<dots> = mset (take 1 syll) + mset (concat (chunks_of (drop 1 syll)))"
    using buckets_mset [OF assms(1)] by (simp only: mset_concat_ro_last)
  also have "\<dots> = mset (take 1 syll @ drop 1 syll)"
    by (simp only: chunks_of_concat mset_append)
  finally show ?thesis
    by simp
qed

section \<open>The code points of the output\<close>

lemma set_concat_assemble: "set (concat (assemble syll)) \<subseteq> set syll"
proof -
  let ?cs = "chunks_of (drop 1 syll)"
  have ro: "set (concat (ro_last (coeng (classify ?cs)))) = set (concat (coeng (classify ?cs)))"
    using mset_concat_ro_last [of "coeng (classify ?cs)"] by (metis set_mset_mset)
  have "set (concat (coeng (classify ?cs))) \<subseteq> set (concat ?cs)"
    using set_sub_COENG_run by (fastforce simp: classify_buckets)
  moreover have "set (concat (filter P ?cs)) \<subseteq> set (concat ?cs)" for P
    by auto
  moreover have "set (take 1 syll) \<subseteq> set syll" "set (drop 1 syll) \<subseteq> set syll"
    by (auto dest: in_set_takeD in_set_dropD)
  moreover have "set (concat ?cs) = set (drop 1 syll)"
    by (simp add: chunks_of_concat)
  ultimately show ?thesis
    unfolding assemble_def Let_def concat_append set_append ro
    unfolding classify_buckets(1,3,4,5,6)
    by (simp only: concat.simps append_Nil2 set_append Un_subset_iff) blast
qed

lemma set_rejoin: "set (rejoin syll) \<subseteq> set syll"
  using set_concat_blank_rec [of "assemble syll"] set_concat_assemble [of syll]
  by (simp add: rejoin_eq)

lemma set_reorderSyll: "set (reorderSyll syll) \<subseteq> set syll \<union> {0x17BE, 0x17C4}"
proof -
  have "set (fuse3 (fuse2 (fuse1 s))) \<subseteq> set s \<union> {0x17BE, 0x17C4}" for s
    using set_str_replace_subset [of "[0x17C1, 0x17B6]" "[0x17C4]" "fuse2 (fuse1 s)"]
      set_str_replace_subset [of "[0x17B8, 0x17C1]" "[0x17BE]" "fuse1 s"]
      set_str_replace_subset [of "[0x17C1, 0x17B8]" "[0x17BE]" s]
    unfolding fuse1_def fuse2_def fuse3_def by auto
  from this [of "rejoin syll"] show ?thesis
    using set_rejoin [of syll] by (auto simp: reorderSyll_def)
qed

lemma set_reorderText: "set (reorderText t) \<subseteq> set (regularizeText t) \<union> {0x17BE, 0x17C4}"
proof -
  have "set (concat (map reorderSyll xs)) \<subseteq> set (concat xs) \<union> {0x17BE, 0x17C4}" for xs
    using set_reorderSyll by (induction xs) auto
  then show ?thesis
    unfolding reorderText_def using syllables_concat [of "regularizeText t"] by metis
qed

lemma regularizeText_fixed:
  assumes "0x17A8 \<notin> set s" "0x17A3 \<notin> set s" "0x17A4 \<notin> set s" "0x17B2 \<notin> set s"
    "0x17B4 \<notin> set s" "0x17B5 \<notin> set s" "0x17DD \<notin> set s" "0x17D3 \<notin> set s" "0x17D8 \<notin> set s"
  shows "regularizeText s = s"
  using assms by (simp add: regularizeText_def str_replace_single_absent del: str_replace.simps)

lemma regularizeText_reorderText: "regularizeText (reorderText t) = reorderText t"
proof -
  have src: "x \<notin> set (regularizeText t)"
    if "x \<in> {0x17A8, 0x17A3, 0x17A4, 0x17B2, 0x17B4, 0x17B5, 0x17DD, 0x17D3, 0x17D8}" for x
    using that
    by (auto simp: regularizeText_def mem_str_replace_single simp del: str_replace.simps)
  have "x \<notin> set (reorderText t)"
    if "x \<in> {0x17A8, 0x17A3, 0x17A4, 0x17B2, 0x17B4, 0x17B5, 0x17DD, 0x17D3, 0x17D8}" for x
    using that src [OF that] set_reorderText [of t] by auto
  then show ?thesis
    by (intro regularizeText_fixed) simp_all
qed

section \<open>Tails that the syllable pattern consumes whole\<close>

lemma match_coeng_cluster_Cons:
  "match_coeng_cluster (x # r) = Some n \<Longrightarrow> x = COENG"
  by (auto simp: match_coeng_cluster_def Let_def split: if_splits)

lemma match_coeng_cluster_mark: "syll_mark x \<Longrightarrow> match_coeng_cluster (x # r) = None"
  by (auto simp: match_coeng_cluster_def Let_def syll_mark_def class_defs)

lemma match_syll_tail_Nil: "match_syll_tail [] = 0"
  by (simp add: match_syll_tail.simps match_coeng_cluster_def)

lemma match_syll_tail_cluster:
  "match_coeng_cluster s = Some n \<Longrightarrow> match_syll_tail s = n + match_syll_tail (drop n s)"
  by (subst match_syll_tail.simps) simp

lemma match_syll_tail_stop:
  "match_coeng_cluster s = None \<Longrightarrow> s = [] \<or> \<not> syll_mark (hd s) \<Longrightarrow> match_syll_tail s = 0"
  by (subst match_syll_tail.simps) (cases s; auto)

lemma match_syll_tail_marks:
  assumes "match_coeng_cluster s = None"
  shows "match_syll_tail s =
    length (takeWhile syll_mark s) + match_syll_tail (drop (length (takeWhile syll_mark s)) s)"
proof (cases "takeWhile syll_mark s = []")
  case True
  then show ?thesis by simp
next
  case False
  then show ?thesis
    using assms by (subst match_syll_tail.simps) (simp add: Let_def)
qed

lemma match_syll_tail_mark:
  assumes "syll_mark x"
  shows "match_syll_tail (x # r) = Suc (match_syll_tail r)"
proof -
  let ?k = "length (takeWhile syll_mark r)"
  have "match_syll_tail (x # r) = Suc ?k + match_syll_tail (drop ?k r)"
    using match_syll_tail_marks [OF match_coeng_cluster_mark [OF assms, of r]] assms by simp
  moreover have "match_syll_tail r = ?k + match_syll_tail (drop ?k r)"
  proof (cases r)
    case Nil
    then show ?thesis by simp
  next
    case (Cons y r')
    show ?thesis
    proof (cases "syll_mark y")
      case True
      then show ?thesis
        using match_syll_tail_marks [OF match_coeng_cluster_mark [OF True, of r']] Cons by simp
    next
      case False
      then show ?thesis
        using Cons by simp
    qed
  qed
  ultimately show ?thesis
    by simp
qed

lemma match_coeng_cluster_bounds:
  "match_coeng_cluster s = Some n \<Longrightarrow> 2 \<le> n \<and> n \<le> length s"
  using match_coeng_cluster_shape by blast

lemma match_syll_tail_le: "match_syll_tail s \<le> length s"
proof (induction s rule: length_induct)
  case (1 s)
  show ?case
  proof (cases "match_coeng_cluster s")
    case (Some n)
    then have n: "2 \<le> n" "n \<le> length s"
      using match_coeng_cluster_bounds by blast+
    then have "length (drop n s) < length s"
      by simp
    then have "match_syll_tail (drop n s) \<le> length (drop n s)"
      using 1 by blast
    then show ?thesis
      using n by (simp add: match_syll_tail_cluster [OF Some])
  next
    case None
    show ?thesis
    proof (cases s)
      case Nil
      then show ?thesis by (simp add: match_syll_tail_Nil)
    next
      case (Cons x r)
      show ?thesis
      proof (cases "syll_mark x")
        case True
        then show ?thesis
          using 1 Cons by (simp add: match_syll_tail_mark)
      next
        case False
        then show ?thesis
          using None Cons by (simp add: match_syll_tail_stop)
      qed
    qed
  qed
qed

lemma match_syll_tail_greedy: "match_syll_tail (drop (match_syll_tail s) s) = 0"
proof (induction s rule: length_induct)
  case (1 s)
  show ?case
  proof (cases "match_coeng_cluster s")
    case (Some n)
    then have n: "2 \<le> n" "n \<le> length s"
      using match_coeng_cluster_bounds by blast+
    then have "length (drop n s) < length s"
      by simp
    then have "match_syll_tail (drop (match_syll_tail (drop n s)) (drop n s)) = 0"
      using 1 by blast
    then show ?thesis
      by (simp add: match_syll_tail_cluster [OF Some] add.commute)
  next
    case None
    show ?thesis
    proof (cases s)
      case Nil
      then show ?thesis by (simp add: match_syll_tail_Nil)
    next
      case (Cons x r)
      show ?thesis
      proof (cases "syll_mark x")
        case True
        then show ?thesis
          using 1 Cons by (simp add: match_syll_tail_mark)
      next
        case False
        then have "match_syll_tail s = 0"
          using None Cons by (simp add: match_syll_tail_stop)
        then show ?thesis by simp
      qed
    qed
  qed
qed

lemma match_coeng_cluster_append:
  "match_coeng_cluster s = Some n \<Longrightarrow> match_coeng_cluster (s @ w) = Some n"
proof -
  assume a: "match_coeng_cluster s = Some n"
  let ?k = "length (takeWhile (\<lambda>c. c = COENG) s)"
  have k: "n = Suc ?k" "0 < ?k" "?k < length s" "CONS_OR_INDEPVOWEL (s ! ?k)"
    using a by (auto simp: match_coeng_cluster_def Let_def split: if_splits)
  have "s ! ?k \<noteq> COENG"
    using k(4) by (auto simp: class_defs)
  moreover have "s ! ?k \<in> set s"
    using k(3) by simp
  ultimately have "takeWhile (\<lambda>c. c = COENG) (s @ w) = takeWhile (\<lambda>c. c = COENG) s"
    by (rule takeWhile_append1 [rotated])
  then show ?thesis
    using k by (simp add: match_coeng_cluster_def Let_def nth_append)
qed

lemma wf_tail_Nil: "wf_tail []"
  by (simp add: wf_tail_def match_syll_tail_Nil)

lemma wf_tail_mark: "syll_mark x \<Longrightarrow> wf_tail (x # r) \<longleftrightarrow> wf_tail r"
  by (simp add: wf_tail_def match_syll_tail_mark)

lemma wf_tail_cluster:
  "match_coeng_cluster s = Some n \<Longrightarrow> wf_tail s \<longleftrightarrow> wf_tail (drop n s)"
  using match_coeng_cluster_bounds [of s n]
  by (auto simp: wf_tail_def match_syll_tail_cluster)

lemma wf_tail_cases:
  assumes "wf_tail s" "s \<noteq> []"
  shows "(\<exists>n. match_coeng_cluster s = Some n) \<or> syll_mark (hd s)"
proof (rule ccontr)
  assume "\<not> ?thesis"
  then have "match_syll_tail s = 0"
    by (intro match_syll_tail_stop) auto
  then show False
    using assms by (simp add: wf_tail_def)
qed

lemma match_syll_tail_append:
  "wf_tail t \<Longrightarrow> match_syll_tail (t @ w) = length t + match_syll_tail w"
proof (induction t rule: length_induct)
  case (1 t)
  show ?case
  proof (cases t)
    case Nil
    then show ?thesis by simp
  next
    case (Cons x r)
    consider n where "match_coeng_cluster t = Some n" | "match_coeng_cluster t = None" "syll_mark x"
      using wf_tail_cases [OF "1.prems"] Cons by auto
    then show ?thesis
    proof cases
      case 1
      then have n: "2 \<le> n" "n \<le> length t"
        using match_coeng_cluster_bounds by blast+
      have "wf_tail (drop n t)"
        using wf_tail_cluster [OF 1] "1.prems" by simp
      then have "match_syll_tail (drop n t @ w) = length (drop n t) + match_syll_tail w"
        using "1.IH" n by simp
      then show ?thesis
        using n match_syll_tail_cluster [OF match_coeng_cluster_append [OF 1, of w]] by simp
    next
      case 2
      then have "wf_tail r"
        using "1.prems" Cons by (simp add: wf_tail_mark)
      then have "match_syll_tail (r @ w) = length r + match_syll_tail w"
        using "1.IH" Cons by simp
      then show ?thesis
        using 2 Cons by (simp add: match_syll_tail_mark)
    qed
  qed
qed

section \<open>Cutting a tail into chunks\<close>

lemma chunks_of_Nil: "chunks_of [] = []"
  by (simp add: chunks_of_def)

lemma chunks_of_step:
  assumes "match_CHUNKPAT s = Some n" "0 < n"
  shows "chunks_of s = take n s # chunks_of (drop n s)"
proof (cases s)
  case Nil
  then show ?thesis
    using assms by (simp add: match_CHUNKPAT_def match_coeng_cluster_def)
next
  case (Cons c r)
  have "take n (c # r) \<noteq> []"
    using assms(2) by (cases n) auto
  then show ?thesis
    using assms unfolding Cons chunks_of_def
    by (simp del: take_Suc_Cons drop_Suc_Cons)
qed

lemma match_coeng_cluster_not_coeng: "x \<noteq> COENG \<Longrightarrow> match_coeng_cluster (x # w) = None"
  by (simp add: match_coeng_cluster_def)

lemma match_coeng_cluster_two:
  "CONS_OR_INDEPVOWEL b \<Longrightarrow> match_coeng_cluster (COENG # b # w) = Some 2"
  by (auto simp: match_coeng_cluster_def class_defs)

lemma chunks_of_single:
  "x \<noteq> COENG \<Longrightarrow> x \<noteq> 0x0A \<Longrightarrow> chunks_of (x # w) = [x] # chunks_of w"
  using chunks_of_step [of "x # w" 1]
  by (simp add: match_CHUNKPAT_def match_coeng_cluster_not_coeng)

lemma chunks_of_two:
  "CONS_OR_INDEPVOWEL b \<Longrightarrow> w = [] \<or> \<not> REGSHIFTER (hd w) \<Longrightarrow>
   chunks_of (COENG # b # w) = [COENG, b] # chunks_of w"
  using chunks_of_step [of "COENG # b # w" 2]
  by (cases w) (auto simp: match_CHUNKPAT_def match_coeng_cluster_two)

lemma chunks_of_three:
  "CONS_OR_INDEPVOWEL b \<Longrightarrow> REGSHIFTER r \<Longrightarrow>
   chunks_of (COENG # b # r # w) = [COENG, b, r] # chunks_of w"
  using chunks_of_step [of "COENG # b # r # w" 3]
  by (simp add: match_CHUNKPAT_def match_coeng_cluster_two)

lemma syll_mark_not_special: "syll_mark x \<Longrightarrow> x \<noteq> COENG \<and> x \<noteq> 0x0A \<and> \<not> CONS_OR_INDEPVOWEL x"
  by (auto simp: syll_mark_def class_defs)

lemma sub_COENG_run_id: "COENG \<notin> set w \<Longrightarrow> sub_COENG_run w = w"
  by (induction w) auto

lemma sub_COENG_run_cluster:
  assumes "xs \<noteq> []" "\<forall>x \<in> set xs. x = COENG" "COENG \<notin> set w"
  shows "sub_COENG_run (xs @ w) = COENG # w"
proof -
  obtain xs' where xs: "xs = COENG # xs'" "\<forall>x \<in> set xs'. x = COENG"
    using assms(1,2) by (cases xs) auto
  have "dropWhile (\<lambda>x. x = COENG) (xs' @ w) = dropWhile (\<lambda>x. x = COENG) w"
    using xs(2) by simp
  also have "\<dots> = w"
    using assms(3) by (cases w) auto
  finally show ?thesis
    using assms(3) by (simp add: xs(1) sub_COENG_run_id)
qed

lemma wf_tail_chunks:
  "wf_tail t \<Longrightarrow>
   \<forall>c \<in> set (chunks_of t).
     (\<exists>x. c = [x] \<and> syll_mark x) \<or> (re_match_lit [COENG] c \<and> proper_chunk (sub_COENG_run c))"
proof (induction t rule: length_induct)
  case (1 t)
  show ?case
  proof (cases t)
    case Nil
    then show ?thesis by (simp add: chunks_of_Nil)
  next
    case (Cons x r)
    consider n where "match_coeng_cluster t = Some n" | "match_coeng_cluster t = None" "syll_mark x"
      using wf_tail_cases [OF "1.prems"] Cons by auto
    then show ?thesis
    proof cases
      case 2
      then have "wf_tail r"
        using "1.prems" Cons by (simp add: wf_tail_mark)
      moreover have "length r < length t"
        using Cons by simp
      ultimately have "\<forall>c \<in> set (chunks_of r).
          (\<exists>x. c = [x] \<and> syll_mark x) \<or> (re_match_lit [COENG] c \<and> proper_chunk (sub_COENG_run c))"
        using "1.IH" by blast
      then show ?thesis
        using 2(2) syll_mark_not_special [OF 2(2)] by (simp add: Cons chunks_of_single)
    next
      case 1
      let ?k = "length (takeWhile (\<lambda>c. c = COENG) t)"
      have k: "n = Suc ?k" "0 < ?k" "?k < length t" "CONS_OR_INDEPVOWEL (t ! ?k)"
        using 1 by (auto simp: match_coeng_cluster_def Let_def split: if_splits)
      have tk: "take ?k t = takeWhile (\<lambda>c. c = COENG) t"
        by (simp add: takeWhile_eq_take [symmetric])
      have tn: "take n t = takeWhile (\<lambda>c. c = COENG) t @ [t ! ?k]"
        using k tk by (simp add: take_Suc_conv_app_nth)
      have base: "t ! ?k \<noteq> COENG"
        using k(4) by (auto simp: class_defs)
      have run: "takeWhile (\<lambda>c. c = COENG) t \<noteq> []" "\<forall>x \<in> set (takeWhile (\<lambda>c. c = COENG) t). x = COENG"
        using k(2) by (auto dest: set_takeWhileD)
      have hdt: "x = COENG"
        using 1 Cons match_coeng_cluster_Cons by blast
      have wfn: "wf_tail (drop n t)"
        using wf_tail_cluster [OF 1] "1.prems" by simp
      show ?thesis
      proof (cases "n < length t \<and> REGSHIFTER (t ! n)")
        case True
        then have m: "match_CHUNKPAT t = Some (Suc n)"
          using 1 by (simp add: match_CHUNKPAT_def)
        have rs: "t ! n \<noteq> COENG" "syll_mark (t ! n)"
          using True by (auto simp: syll_mark_def class_defs)
        have dn: "drop n t = t ! n # drop (Suc n) t"
          using True by (simp add: Cons_nth_drop_Suc)
        have "wf_tail (drop (Suc n) t)"
          using wfn rs(2) by (simp add: dn wf_tail_mark)
        moreover have "length (drop (Suc n) t) < length t"
          using Cons by simp
        ultimately have IH: "\<forall>c \<in> set (chunks_of (drop (Suc n) t)).
          (\<exists>x. c = [x] \<and> syll_mark x) \<or> (re_match_lit [COENG] c \<and> proper_chunk (sub_COENG_run c))"
          using "1.IH" by blast
        have tsn: "take (Suc n) t = takeWhile (\<lambda>c. c = COENG) t @ [t ! ?k, t ! n]"
          using True tn by (simp add: take_Suc_conv_app_nth)
        have "sub_COENG_run (take (Suc n) t) = [COENG, t ! ?k, t ! n]"
          unfolding tsn using run base rs(1) by (intro sub_COENG_run_cluster) auto
        then have "proper_chunk (sub_COENG_run (take (Suc n) t))"
          using k(4) True by simp
        moreover have "re_match_lit [COENG] (take (Suc n) t)"
          using hdt by (simp add: Cons re_match_lit_def)
        ultimately show ?thesis
          using IH by (simp add: chunks_of_step [OF m])
      next
        case False
        then have m: "match_CHUNKPAT t = Some n"
          using 1 by (auto simp: match_CHUNKPAT_def)
        have "length (drop n t) < length t"
          using k Cons by simp
        then have IH: "\<forall>c \<in> set (chunks_of (drop n t)).
          (\<exists>x. c = [x] \<and> syll_mark x) \<or> (re_match_lit [COENG] c \<and> proper_chunk (sub_COENG_run c))"
          using "1.IH" wfn by blast
        have "sub_COENG_run (take n t) = [COENG, t ! ?k]"
          unfolding tn using run base by (intro sub_COENG_run_cluster) auto
        then have "proper_chunk (sub_COENG_run (take n t))"
          using k(4) by simp
        moreover have "re_match_lit [COENG] (take n t)"
          using hdt k(1) by (simp add: Cons re_match_lit_def)
        ultimately show ?thesis
          using IH k(1) by (simp add: chunks_of_step [OF m])
      qed
    qed
  qed
qed

section \<open>Chunks in bucket order\<close>

lemma bucket_rank_tests:
  "re_match_class REGSHIFTER c \<longleftrightarrow> bucket_rank c = 0"
  "re_match_lit [ROBAT] c \<longleftrightarrow> bucket_rank c = 1"
  "re_match_lit [COENG] c \<longleftrightarrow> bucket_rank c = 2"
  "re_match_class DEPVOWEL c \<longleftrightarrow> bucket_rank c = 3"
  "re_match_class NONSPACING c \<longleftrightarrow> bucket_rank c = 4"
  "re_match_class SPACING c \<longleftrightarrow> bucket_rank c = 5"
  by (cases c; auto simp: bucket_rank_def re_match_lit_single re_match_class_def class_defs)+

lemma bucket_rank_filters:
  "re_match_class REGSHIFTER = (\<lambda>c. bucket_rank c = 0)"
  "re_match_lit [ROBAT] = (\<lambda>c. bucket_rank c = 1)"
  "re_match_lit [COENG] = (\<lambda>c. bucket_rank c = 2)"
  "re_match_class DEPVOWEL = (\<lambda>c. bucket_rank c = 3)"
  "re_match_class NONSPACING = (\<lambda>c. bucket_rank c = 4)"
  "re_match_class SPACING = (\<lambda>c. bucket_rank c = 5)"
  by (auto simp: bucket_rank_tests)

lemma proper_chunk_cases:
  assumes "proper_chunk c"
  obtains x where "c = [x]" "syll_mark x" "\<not> ZEROWIDTH x"
    | b where "c = [COENG, b]" "CONS_OR_INDEPVOWEL b"
    | b r where "c = [COENG, b, r]" "CONS_OR_INDEPVOWEL b" "REGSHIFTER r"
  using assms by (cases c rule: proper_chunk.cases) auto

lemma proper_chunk_rank: "proper_chunk c \<Longrightarrow> bucket_rank c < 6"
proof (erule proper_chunk_cases)
  fix x assume "c = [x]" "syll_mark x" "\<not> ZEROWIDTH x"
  then show ?thesis
    by (auto simp: bucket_rank_def re_match_lit_single re_match_class_def syll_mark_def class_defs)
qed (auto simp: bucket_rank_def re_match_lit_single re_match_class_def)

lemma proper_chunk_sub: "proper_chunk c \<Longrightarrow> sub_COENG_run c = c"
  by (erule proper_chunk_cases) (auto simp: syll_mark_def class_defs)

lemma proper_chunk_hd:
  "proper_chunk c \<Longrightarrow> c \<noteq> [] \<and> \<not> CONS_OR_INDEPVOWEL (hd c) \<and>
     (REGSHIFTER (hd c) \<longleftrightarrow> bucket_rank c = 0)"
  by (erule proper_chunk_cases)
     (auto simp: bucket_rank_def re_match_class_def syll_mark_def class_defs)

lemma chunks_of_concat_proper:
  assumes "\<forall>c \<in> set M. proper_chunk c" "sorted (map bucket_rank M)"
  shows "chunks_of (concat M) = M"
  using assms
proof (induction M)
  case Nil
  then show ?case by (simp add: chunks_of_Nil)
next
  case (Cons c M)
  then have IH: "chunks_of (concat M) = M"
    by simp
  have pc: "proper_chunk c"
    using Cons.prems by simp
  have next_rank: "concat M = [] \<or> \<not> REGSHIFTER (hd (concat M))" if "bucket_rank c = 2"
  proof (cases M)
    case Nil
    then show ?thesis by simp
  next
    case (Cons d M')
    then have d: "proper_chunk d" "bucket_rank c \<le> bucket_rank d"
      using Cons.prems \<open>\<forall>c\<in>set (c # M). proper_chunk c\<close> \<open>sorted (map bucket_rank (c # M))\<close>
      by auto
    then have "\<not> REGSHIFTER (hd d)" "d \<noteq> []"
      using that proper_chunk_hd [of d] by auto
    then show ?thesis
      using Cons by simp
  qed
  from pc show ?case
  proof (cases rule: proper_chunk_cases)
    case (1 x)
    then show ?thesis
      using IH syll_mark_not_special [of x] by (simp add: chunks_of_single)
  next
    case (2 b)
    then have "bucket_rank c = 2"
      by (simp add: bucket_rank_def re_match_lit_def re_match_class_def class_defs)
    then show ?thesis
      using 2 IH next_rank by (simp add: chunks_of_two)
  next
    case (3 b r)
    then show ?thesis
      using IH by (simp add: chunks_of_three)
  qed
qed

lemma sorted_key_split:
  "sorted (map k xs) \<Longrightarrow>
   filter (\<lambda>x. i \<le> k x) xs = filter (\<lambda>x. k x = i) xs @ filter (\<lambda>x. Suc i \<le> k x) xs"
proof (induction xs)
  case Nil
  then show ?case by simp
next
  case (Cons x xs)
  then have IH: "filter (\<lambda>x. i \<le> k x) xs = filter (\<lambda>x. k x = i) xs @ filter (\<lambda>x. Suc i \<le> k x) xs"
    and later: "\<forall>y \<in> set xs. k x \<le> k y"
    by auto
  show ?case
  proof (cases "i < k x")
    case True
    then have "filter (\<lambda>x. k x = i) xs = []"
      using later by (auto simp: filter_empty_conv)
    then show ?thesis
      using True IH by simp
  next
    case False
    then show ?thesis
      using IH by auto
  qed
qed

lemma sorted_rank_segments:
  assumes "sorted (map bucket_rank M)" "\<forall>c \<in> set M. bucket_rank c < 6"
  shows "filter (\<lambda>c. bucket_rank c = 0) M @ filter (\<lambda>c. bucket_rank c = 1) M @
         filter (\<lambda>c. bucket_rank c = 2) M @ filter (\<lambda>c. bucket_rank c = 3) M @
         filter (\<lambda>c. bucket_rank c = 4) M @ filter (\<lambda>c. bucket_rank c = 5) M = M"
proof -
  note sp = sorted_key_split [OF assms(1)]
  have "filter (\<lambda>c. 6 \<le> bucket_rank c) M = []"
    using assms(2) by (auto simp: filter_empty_conv)
  then have "filter (\<lambda>c. 0 \<le> bucket_rank c) M =
         filter (\<lambda>c. bucket_rank c = 0) M @ filter (\<lambda>c. bucket_rank c = 1) M @
         filter (\<lambda>c. bucket_rank c = 2) M @ filter (\<lambda>c. bucket_rank c = 3) M @
         filter (\<lambda>c. bucket_rank c = 4) M @ filter (\<lambda>c. bucket_rank c = 5) M"
    using sp [of 0] sp [of 1] sp [of 2] sp [of 3] sp [of 4] sp [of 5]
    by (simp add: eval_nat_numeral)
  then show ?thesis
    by simp
qed

lemma classify_proper:
  assumes "\<forall>c \<in> set M. proper_chunk c" "sorted (map bucket_rank M)"
  shows "rs (classify M) @ robat (classify M) @ coeng (classify M) @ dv (classify M) @
         nonsp (classify M) @ sp (classify M) = M"
    and "coeng (classify M) = filter (\<lambda>c. bucket_rank c = 2) M"
proof -
  have "map sub_COENG_run (filter (\<lambda>c. bucket_rank c = 2) M) = filter (\<lambda>c. bucket_rank c = 2) M"
    using assms(1) by (intro map_idI) (simp add: proper_chunk_sub)
  then show co: "coeng (classify M) = filter (\<lambda>c. bucket_rank c = 2) M"
    by (simp add: classify_buckets bucket_rank_filters)
  have "\<forall>c \<in> set M. bucket_rank c < 6"
    using assms(1) proper_chunk_rank by blast
  from sorted_rank_segments [OF assms(2) this]
  show "rs (classify M) @ robat (classify M) @ coeng (classify M) @ dv (classify M) @
         nonsp (classify M) @ sp (classify M) = M"
    unfolding co by (simp add: classify_buckets(1,3,4,5,6) bucket_rank_filters)
qed

section \<open>The reassembled list of a syllable cut out by the syllable pattern\<close>

lemma sorted_map_const: "\<forall>x \<in> set xs. k x = (i::nat) \<Longrightarrow> sorted (map k xs)"
  by (induction xs) auto

lemma buckets_proper:
  assumes "wf_tail t"
  shows "\<forall>e \<in> set (rs (classify (chunks_of t))). proper_chunk e \<and> bucket_rank e = 0"
    and "\<forall>e \<in> set (robat (classify (chunks_of t))). proper_chunk e \<and> bucket_rank e = 1"
    and "\<forall>e \<in> set (coeng (classify (chunks_of t))). proper_chunk e \<and> bucket_rank e = 2"
    and "\<forall>e \<in> set (dv (classify (chunks_of t))). proper_chunk e \<and> bucket_rank e = 3"
    and "\<forall>e \<in> set (nonsp (classify (chunks_of t))). proper_chunk e \<and> bucket_rank e = 4"
    and "\<forall>e \<in> set (sp (classify (chunks_of t))). proper_chunk e \<and> bucket_rank e = 5"
proof -
  note ch = wf_tail_chunks [OF assms, rule_format]
  have single: "proper_chunk e" if e: "e \<in> set (chunks_of t)" and r: "bucket_rank e < 6" "bucket_rank e \<noteq> 2" for e
  proof -
    have "\<not> re_match_lit [COENG] e"
      using r(2) by (simp add: bucket_rank_tests)
    then obtain x where x: "e = [x]" "syll_mark x"
      using ch [OF e] by auto
    have "\<not> ZEROWIDTH x"
      using r(1) unfolding x(1) bucket_rank_def re_match_lit_single re_match_class_def
      by (auto simp: class_defs split: if_splits)
    then show ?thesis
      using x by simp
  qed
  show "\<forall>e \<in> set (rs (classify (chunks_of t))). proper_chunk e \<and> bucket_rank e = 0"
    using single by (auto simp: classify_buckets bucket_rank_filters)
  show "\<forall>e \<in> set (robat (classify (chunks_of t))). proper_chunk e \<and> bucket_rank e = 1"
    using single by (auto simp: classify_buckets bucket_rank_filters)
  show "\<forall>e \<in> set (dv (classify (chunks_of t))). proper_chunk e \<and> bucket_rank e = 3"
    using single by (auto simp: classify_buckets bucket_rank_filters)
  show "\<forall>e \<in> set (nonsp (classify (chunks_of t))). proper_chunk e \<and> bucket_rank e = 4"
    using single by (auto simp: classify_buckets bucket_rank_filters)
  show "\<forall>e \<in> set (sp (classify (chunks_of t))). proper_chunk e \<and> bucket_rank e = 5"
    using single by (auto simp: classify_buckets bucket_rank_filters)
  show "\<forall>e \<in> set (coeng (classify (chunks_of t))). proper_chunk e \<and> bucket_rank e = 2"
  proof
    fix e assume "e \<in> set (coeng (classify (chunks_of t)))"
    then obtain c where c: "c \<in> set (chunks_of t)" "re_match_lit [COENG] c" "e = sub_COENG_run c"
      by (auto simp: classify_buckets)
    have "\<not> (\<exists>x. c = [x] \<and> syll_mark x)"
      using c(2) syll_mark_not_special by (auto simp: re_match_lit_def)
    then have "proper_chunk e"
      using ch [OF c(1)] c(3) by blast
    moreover have "bucket_rank e = 2"
      using c(2,3) sub_COENG_run_hd by (simp add: bucket_rank_tests [symmetric])
    ultimately show "proper_chunk e \<and> bucket_rank e = 2" ..
  qed
qed

lemma concat_blank_rec_remdups: "concat (blank_rec xs) = concat (remdups_adj xs)"
  by (induction xs rule: blank_rec.induct) auto

lemma ro_last_id:
  "ro_last cs = cs \<longleftrightarrow> (\<forall>c \<in> set (butlast cs). \<not> is_coeng_ro c)"
proof (cases "cs = []")
  case True
  then show ?thesis by (simp add: ro_last_eq)
next
  case False
  show ?thesis
  proof
    assume eq: "ro_last cs = cs"
    have "length (ro_last cs) = length cs + length (filter is_coeng_ro (butlast cs))"
      using False by (simp add: ro_last_eq)
    then have "filter is_coeng_ro (butlast cs) = []"
      using eq by simp
    then show "\<forall>c \<in> set (butlast cs). \<not> is_coeng_ro c"
      by (simp add: filter_empty_conv)
  next
    assume no: "\<forall>c \<in> set (butlast cs). \<not> is_coeng_ro c"
    then have "map blank_ro (butlast cs) = butlast cs" "filter is_coeng_ro (butlast cs) = []"
      by (auto simp: blank_ro_def filter_empty_conv intro: map_idI)
    then show "ro_last cs = cs"
      using False by (simp add: ro_last_eq)
  qed
qed

lemma wf_tail_concat_proper: "\<forall>c \<in> set M. proper_chunk c \<Longrightarrow> wf_tail (concat M)"
proof (induction M)
  case Nil
  then show ?case by (simp add: wf_tail_Nil)
next
  case (Cons c M)
  then have IH: "wf_tail (concat M)" and pc: "proper_chunk c"
    by simp_all
  from pc show ?case
  proof (cases rule: proper_chunk_cases)
    case (1 x)
    then show ?thesis
      using IH by (simp add: wf_tail_mark)
  next
    case (2 b)
    then show ?thesis
      using IH wf_tail_cluster [OF match_coeng_cluster_two [OF 2(2), of "concat M"]] by simp
  next
    case (3 b r)
    then have "syll_mark r"
      by (auto simp: syll_mark_def class_defs)
    then show ?thesis
      using 3 IH wf_tail_cluster [OF match_coeng_cluster_two [OF 3(2), of "r # concat M"]]
      by (simp add: wf_tail_mark)
  qed
qed

section \<open>The fusions applied twice\<close>

lemma adj_pair_Cons:
  "adj_pair p q (x # s) \<longleftrightarrow> (s \<noteq> [] \<and> x = p \<and> hd s = q) \<or> adj_pair p q s"
  by (cases s) auto

lemma str_replace_no_pair: "\<not> adj_pair p q s \<Longrightarrow> str_replace [p, q] new s = s"
  by (induction s rule: induct_list012)
     (auto simp: str_replace_pair simp del: str_replace.simps)

lemma str_replace_pair_hd:
  "str_replace [p, q] [n] (y # r) \<noteq> [] \<and>
   (hd (str_replace [p, q] [n] (y # r)) = y \<or> hd (str_replace [p, q] [n] (y # r)) = n)"
  by (cases r) (auto simp: str_replace_pair simp del: str_replace.simps)

lemma str_replace_kills_pair:
  assumes "n \<noteq> p" "n \<noteq> q"
  shows "\<not> adj_pair p q (str_replace [p, q] [n] s)"
proof (induction s rule: induct_list012)
  case 1
  then show ?case by simp
next
  case (2 x)
  then show ?case by simp
next
  case (3 x y zs)
  show ?case
  proof (cases "x = p \<and> y = q")
    case True
    then have eq: "str_replace [p, q] [n] (x # y # zs) = n # str_replace [p, q] [n] zs"
      by (simp add: str_replace_pair del: str_replace.simps)
    show ?thesis
      unfolding eq using 3(1) assms by (simp add: adj_pair_Cons del: str_replace.simps)
  next
    case False
    then have eq: "str_replace [p, q] [n] (x # y # zs) = x # str_replace [p, q] [n] (y # zs)"
      by (auto simp: str_replace_pair simp del: str_replace.simps)
    have "\<not> (x = p \<and> hd (str_replace [p, q] [n] (y # zs)) = q)"
      using False str_replace_pair_hd [of p q n y zs] assms by auto
    then show ?thesis
      unfolding eq using 3(2) by (simp add: adj_pair_Cons del: str_replace.simps)
  qed
qed

lemma str_replace_keeps_no_pair:
  assumes "\<not> adj_pair p' q' s" "n \<noteq> p'" "n \<noteq> q'"
  shows "\<not> adj_pair p' q' (str_replace [p, q] [n] s)"
  using assms(1)
proof (induction s rule: induct_list012)
  case 1
  then show ?case by simp
next
  case (2 x)
  then show ?case by simp
next
  case (3 x y zs)
  then have no: "\<not> adj_pair p' q' zs" "\<not> adj_pair p' q' (y # zs)" "\<not> (x = p' \<and> y = q')"
    by (auto simp: adj_pair_Cons)
  show ?case
  proof (cases "x = p \<and> y = q")
    case True
    then have eq: "str_replace [p, q] [n] (x # y # zs) = n # str_replace [p, q] [n] zs"
      by (simp add: str_replace_pair del: str_replace.simps)
    show ?thesis
      unfolding eq using 3(1) no(1) assms(2) by (simp add: adj_pair_Cons del: str_replace.simps)
  next
    case False
    then have eq: "str_replace [p, q] [n] (x # y # zs) = x # str_replace [p, q] [n] (y # zs)"
      by (auto simp: str_replace_pair simp del: str_replace.simps)
    have "\<not> (x = p' \<and> hd (str_replace [p, q] [n] (y # zs)) = q')"
      using no(3) str_replace_pair_hd [of p q n y zs] assms(3) by auto
    then show ?thesis
      unfolding eq using 3(2) no(2) by (simp add: adj_pair_Cons del: str_replace.simps)
  qed
qed

lemma fuse_no_sources:
  "\<not> adj_pair 0x17C1 0x17B8 (fuse3 (fuse2 (fuse1 z)))"
  "\<not> adj_pair 0x17B8 0x17C1 (fuse3 (fuse2 (fuse1 z)))"
  "\<not> adj_pair 0x17C1 0x17B6 (fuse3 (fuse2 (fuse1 z)))"
proof -
  have 1: "\<not> adj_pair 0x17C1 0x17B8 (fuse1 z)"
    unfolding fuse1_def by (rule str_replace_kills_pair) simp_all
  have 2: "\<not> adj_pair 0x17B8 0x17C1 (fuse2 (fuse1 z))"
    unfolding fuse2_def by (rule str_replace_kills_pair) simp_all
  have 3: "\<not> adj_pair 0x17C1 0x17B8 (fuse2 (fuse1 z))"
    unfolding fuse2_def using 1 by (rule str_replace_keeps_no_pair) simp_all
  show "\<not> adj_pair 0x17C1 0x17B6 (fuse3 (fuse2 (fuse1 z)))"
    unfolding fuse3_def by (rule str_replace_kills_pair) simp_all
  show "\<not> adj_pair 0x17C1 0x17B8 (fuse3 (fuse2 (fuse1 z)))"
    unfolding fuse3_def using 3 by (rule str_replace_keeps_no_pair) simp_all
  show "\<not> adj_pair 0x17B8 0x17C1 (fuse3 (fuse2 (fuse1 z)))"
    unfolding fuse3_def using 2 by (rule str_replace_keeps_no_pair) simp_all
qed

lemma fuse_idem:
  "fuse3 (fuse2 (fuse1 (fuse3 (fuse2 (fuse1 z))))) = fuse3 (fuse2 (fuse1 z))"
  using fuse_no_sources [of z]
  by (simp add: fuse1_def fuse2_def fuse3_def str_replace_no_pair del: str_replace.simps)

lemma str_replace_pair_absent: "p \<notin> set s \<Longrightarrow> str_replace [p, q] new s = s"
  by (induction s) (auto simp: str_replace_pair_skip simp del: str_replace.simps(2))

lemma str_replace_pair_suffix:
  assumes "p \<notin> set post" "q \<notin> set post"
  shows "str_replace [p, q] new (d @ post) = str_replace [p, q] new d @ post"
proof (induction d rule: induct_list012)
  case 1
  then show ?case
    using assms(1) by (simp add: str_replace_pair_absent del: str_replace.simps)
next
  case (2 x)
  have "post = [] \<or> hd post \<noteq> q"
    using assms(2) by (cases post) auto
  then show ?case
    using assms(1)
    by (simp add: str_replace_pair_skip_hd str_replace_pair_absent del: str_replace.simps)
next
  case (3 x y zs)
  then show ?case
    by (simp add: str_replace_pair del: str_replace.simps)
qed

lemma fuse_middle:
  assumes "\<forall>x \<in> set pre. \<not> DEPVOWEL x" "\<forall>x \<in> set post. \<not> DEPVOWEL x"
  shows "fuse3 (fuse2 (fuse1 (pre @ d @ post))) = pre @ fuse3 (fuse2 (fuse1 d)) @ post"
proof -
  have dv: "DEPVOWEL 0x17C1" "DEPVOWEL 0x17B8" "DEPVOWEL 0x17B6"
    by (simp_all add: DEPVOWEL_def)
  then have pre: "0x17C1 \<notin> set pre" "0x17B8 \<notin> set pre"
    and post: "0x17C1 \<notin> set post" "0x17B8 \<notin> set post" "0x17B6 \<notin> set post"
    using assms by blast+
  have one: "str_replace [p, q] new (pre @ e @ post) = pre @ str_replace [p, q] new e @ post"
    if "p \<notin> set pre" "p \<notin> set post" "q \<notin> set post" for p q new e
    using that by (simp add: str_replace_pair_prefix str_replace_pair_suffix del: str_replace.simps)
  show ?thesis
    unfolding fuse1_def fuse2_def fuse3_def
    by (simp only: one [OF pre(1) post(1) post(2)] one [OF pre(2) post(2) post(1)]
        one [OF pre(1) post(1) post(3)])
qed

lemma fuse_depvowels:
  assumes "\<forall>x \<in> set d. DEPVOWEL x"
  shows "\<forall>x \<in> set (fuse3 (fuse2 (fuse1 d))). DEPVOWEL x"
proof -
  have "set (fuse3 (fuse2 (fuse1 d))) \<subseteq> set d \<union> {0x17BE, 0x17C4}"
    using set_str_replace_subset [of "[0x17C1, 0x17B6]" "[0x17C4]" "fuse2 (fuse1 d)"]
      set_str_replace_subset [of "[0x17B8, 0x17C1]" "[0x17BE]" "fuse1 d"]
      set_str_replace_subset [of "[0x17C1, 0x17B8]" "[0x17BE]" d]
    unfolding fuse1_def fuse2_def fuse3_def by auto
  moreover have "DEPVOWEL 0x17BE" "DEPVOWEL 0x17C4"
    by (simp_all add: DEPVOWEL_def)
  ultimately show ?thesis
    using assms by auto
qed

section \<open>More on lists of chunks\<close>

lemma set_blank_rec: "set (blank_rec xs) \<subseteq> insert [] (set xs)"
  by (induction xs rule: blank_rec.induct) auto

lemma sorted_filter_blank_rec:
  "sorted (map k (filter (\<lambda>c. c \<noteq> []) xs)) \<Longrightarrow>
   sorted (map k (filter (\<lambda>c. c \<noteq> []) (blank_rec xs)))"
proof (induction xs rule: blank_rec.induct)
  case 1
  then show ?case by simp
next
  case (2 x)
  then show ?case by simp
next
  case (3 x y r)
  have tail: "sorted (map k (filter (\<lambda>c. c \<noteq> []) (y # r)))"
    using "3.prems" by (cases "x = []") simp_all
  then have IH: "sorted (map k (filter (\<lambda>c. c \<noteq> []) (blank_rec (y # r))))"
    by (rule "3.IH")
  show ?case
  proof (cases "y = x \<or> x = []")
    case True
    then show ?thesis
      using IH by auto
  next
    case False
    have "\<forall>z \<in> set (filter (\<lambda>c. c \<noteq> []) (blank_rec (y # r))). k x \<le> k z"
    proof
      fix z assume "z \<in> set (filter (\<lambda>c. c \<noteq> []) (blank_rec (y # r)))"
      then have "z \<in> set (filter (\<lambda>c. c \<noteq> []) (y # r))"
        using set_blank_rec [of "y # r"] by auto
      then show "k x \<le> k z"
        using "3.prems" False by auto
    qed
    then show ?thesis
      using IH False by simp
  qed
qed

lemma blank_rec_Nil_iff: "blank_rec xs = [] \<longleftrightarrow> xs = []"
  by (cases xs rule: blank_rec.cases) auto

lemma last_blank_rec: "xs \<noteq> [] \<Longrightarrow> last (blank_rec xs) = last xs"
  by (induction xs rule: blank_rec.induct) (auto simp: blank_rec_Nil_iff)

lemma last_filter_keep: "xs \<noteq> [] \<Longrightarrow> P (last xs) \<Longrightarrow> last (filter P xs) = last xs"
  by (induction xs) (auto simp: filter_empty_conv)

lemma sorted_key_split_less:
  "sorted (map k xs) \<Longrightarrow>
   filter (\<lambda>x. k x < i) xs @ filter (\<lambda>x. (i::nat) \<le> k x) xs = xs"
proof (induction xs)
  case Nil
  then show ?case by simp
next
  case (Cons x xs)
  then have IH: "filter (\<lambda>x. k x < i) xs @ filter (\<lambda>x. i \<le> k x) xs = xs"
    and later: "\<forall>y \<in> set xs. k x \<le> k y"
    by auto
  show ?case
  proof (cases "k x < i")
    case True
    then show ?thesis
      using IH by simp
  next
    case False
    then have "filter (\<lambda>x. k x < i) xs = []"
      using later by (auto simp: filter_empty_conv)
    then show ?thesis
      using False IH by simp
  qed
qed

lemma map_single_concat: "\<forall>c \<in> set xs. \<exists>x. c = [x] \<Longrightarrow> map (\<lambda>x. [x]) (concat xs) = xs"
  by (induction xs) auto

lemma proper_chunk_no_depvowel:
  "proper_chunk c \<Longrightarrow> bucket_rank c \<noteq> 3 \<Longrightarrow> \<forall>x \<in> set c. \<not> DEPVOWEL x"
  by (erule proper_chunk_cases)
     (auto simp: bucket_rank_def re_match_lit_single re_match_class_def class_defs split: if_splits)

lemma proper_chunk_depvowel:
  "proper_chunk c \<Longrightarrow> bucket_rank c = 3 \<Longrightarrow> \<exists>x. c = [x] \<and> DEPVOWEL x"
  by (erule proper_chunk_cases)
     (auto simp: bucket_rank_def re_match_lit_single re_match_class_def class_defs split: if_splits)

lemma depvowel_chunk: "DEPVOWEL x \<Longrightarrow> proper_chunk [x] \<and> bucket_rank [x] = 3"
  by (auto simp: bucket_rank_def re_match_lit_single re_match_class_def syll_mark_def class_defs)

lemma is_coeng_ro_rank: "is_coeng_ro c \<Longrightarrow> bucket_rank c = 2"
  by (cases c)
     (auto simp: is_coeng_ro_def COENG_RO_def bucket_rank_def re_match_lit_def re_match_class_def
        class_defs)

lemma ro_last_last:
  assumes "r \<in> set (ro_last C)" "is_coeng_ro r"
  shows "is_coeng_ro (last (ro_last C))"
proof -
  have C: "C \<noteq> []"
    using assms(1) by (auto simp: ro_last_eq)
  show ?thesis
  proof (cases "filter is_coeng_ro (butlast C) = []")
    case True
    have "\<not> is_coeng_ro (blank_ro c)" for c
      by (simp add: blank_ro_def is_coeng_ro_def)
    then have "r = last C"
      using assms C True by (auto simp: ro_last_eq)
    then show ?thesis
      using assms(2) C True by (simp add: ro_last_eq)
  next
    case False
    then have "last (ro_last C) = last (filter is_coeng_ro (butlast C))"
      using C by (simp add: ro_last_eq)
    moreover have "last (filter is_coeng_ro (butlast C)) \<in> set (filter is_coeng_ro (butlast C))"
      using False by (rule last_in_set)
    ultimately show ?thesis
      by simp
  qed
qed

lemma ro_last_last_mem:
  assumes "C \<noteq> []"
  shows "last (ro_last C) \<in> set C" "ro_last C \<noteq> []"
proof -
  show "ro_last C \<noteq> []"
    using assms by (simp add: ro_last_eq)
  show "last (ro_last C) \<in> set C"
  proof (cases "filter is_coeng_ro (butlast C) = []")
    case True
    then show ?thesis
      using assms by (simp add: ro_last_eq)
  next
    case False
    then have "last (ro_last C) = last (filter is_coeng_ro (butlast C))"
      using assms by (simp add: ro_last_eq)
    moreover have "last (filter is_coeng_ro (butlast C)) \<in> set (filter is_coeng_ro (butlast C))"
      using False by (rule last_in_set)
    ultimately show ?thesis
      by (auto dest: in_set_butlastD)
  qed
qed

section \<open>The result of one pass\<close>

lemma mem_blank_rec: "c \<in> set (blank_rec xs) \<Longrightarrow> c = [] \<or> c \<in> set xs"
  using set_blank_rec [of xs] by auto

lemma joined_chunks:
  assumes base: "CONS_OR_INDEPVOWEL b" and wf: "wf_tail t"
  obtains N where "rejoin (b # t) = b # concat N" "\<forall>c \<in> set N. proper_chunk c"
    "sorted (map bucket_rank N)"
    "(\<exists>r \<in> set (filter (\<lambda>c. bucket_rank c = 2) N). is_coeng_ro r) \<longrightarrow>
       is_coeng_ro (last (filter (\<lambda>c. bucket_rank c = 2) N))"
proof -
  define B where "B = classify (chunks_of t)"
  define X where "X = rs B @ robat B"
  define C where "C = coeng B"
  define S where "S = ro_last C"
  define Y where "Y = dv B @ nonsp B @ sp B"
  define N where "N = filter (\<lambda>c. c \<noteq> []) (blank_rec (X @ S @ Y))"
  note bp = buckets_proper [OF wf, folded B_def]
  have X: "\<forall>c \<in> set X. proper_chunk c \<and> bucket_rank c < 2"
    using bp by (auto simp: X_def)
  have Y: "\<forall>c \<in> set Y. proper_chunk c \<and> 2 < bucket_rank c"
    using bp by (auto simp: Y_def)
  have C: "\<forall>c \<in> set C. proper_chunk c \<and> bucket_rank c = 2"
    using bp by (simp add: C_def)
  have S: "\<forall>c \<in> set S. c = [] \<or> proper_chunk c \<and> bucket_rank c = 2"
    using C set_ro_last [of C] by (auto simp: S_def)
  have ne: "c \<noteq> []" if "proper_chunk c" for c
    using that proper_chunk_hd by blast
  have asm: "assemble (b # t) = [b] # (X @ S @ Y)"
    by (simp add: assemble_Cons X_def S_def C_def Y_def B_def)
  have "X @ S @ Y = [] \<or> hd (X @ S @ Y) \<noteq> [b]"
  proof (cases "X @ S @ Y")
    case Nil
    then show ?thesis by simp
  next
    case (Cons c A)
    then have "c \<in> set X \<union> set S \<union> set Y"
      by (metis Un_assoc list.set_intros(1) set_append)
    then have "c = [] \<or> proper_chunk c"
      using X S Y by auto
    then show ?thesis
      using Cons base proper_chunk_hd [of c] by (cases c) auto
  qed
  then have "blank_rec ([b] # (X @ S @ Y)) = [b] # blank_rec (X @ S @ Y)"
    by (auto simp: blank_rec_Cons)
  then have 1: "rejoin (b # t) = b # concat N"
    by (simp add: rejoin_eq asm N_def concat_filter_nonempty)
  have 2: "\<forall>c \<in> set N. proper_chunk c"
    using X S Y by (auto simp: N_def dest!: mem_blank_rec)
  have fX: "filter (\<lambda>c. c \<noteq> []) X = X" and fY: "filter (\<lambda>c. c \<noteq> []) Y = Y"
    using X Y ne by (auto simp: filter_id_conv)
  have sX: "sorted (map bucket_rank X)"
  proof -
    have "sorted (map bucket_rank (rs B))" "sorted (map bucket_rank (robat B))"
      using bp by (auto intro: sorted_map_const)
    then show ?thesis
      using bp by (auto simp: X_def sorted_append)
  qed
  have sY: "sorted (map bucket_rank Y)"
  proof -
    have "sorted (map bucket_rank (dv B))" "sorted (map bucket_rank (nonsp B))"
      "sorted (map bucket_rank (sp B))"
      using bp by (auto intro: sorted_map_const)
    then show ?thesis
      using bp by (auto simp: Y_def sorted_append)
  qed
  have sS: "sorted (map bucket_rank (filter (\<lambda>c. c \<noteq> []) S))"
    using S by (intro sorted_map_const [of _ _ 2]) auto
  have "sorted (map bucket_rank (filter (\<lambda>c. c \<noteq> []) (X @ S @ Y)))"
    using sX sY sS X Y S by (fastforce simp: fX fY sorted_append)
  then have 3: "sorted (map bucket_rank N)"
    unfolding N_def by (rule sorted_filter_blank_rec)
  have 4: "(\<exists>r \<in> set (filter (\<lambda>c. bucket_rank c = 2) N). is_coeng_ro r) \<longrightarrow>
       is_coeng_ro (last (filter (\<lambda>c. bucket_rank c = 2) N))"
  proof (cases "C = []")
    case True
    then have "S = []"
      by (simp add: S_def ro_last_eq)
    have "bucket_rank c \<noteq> 2" if c: "c \<in> set N" for c
    proof -
      have "c \<noteq> []" "c \<in> set (blank_rec (X @ Y))"
        using c \<open>S = []\<close> by (simp_all add: N_def)
      then have "c \<in> set X \<or> c \<in> set Y"
        using mem_blank_rec [of c "X @ Y"] by auto
      then show ?thesis
      proof
        assume "c \<in> set X"
        then have "bucket_rank c < 2" using X by blast
        then show ?thesis by simp
      next
        assume "c \<in> set Y"
        then have "2 < bucket_rank c" using Y by blast
        then show ?thesis by simp
      qed
    qed
    then have "filter (\<lambda>c. bucket_rank c = 2) N = []"
      by (simp add: filter_empty_conv)
    then show ?thesis by simp
  next
    case False
    then have Sne: "S \<noteq> []" and lastS: "last S \<in> set C"
      using ro_last_last_mem [of C] by (simp_all add: S_def)
    then have lS: "last S \<noteq> []" "bucket_rank (last S) = 2"
      using C ne by auto
    have hdS: "hd S = [] \<or> bucket_rank (hd S) = 2"
      using S Sne by (cases S) auto
    have "X = [] \<or> last X \<noteq> hd (S @ Y)"
    proof (cases "X = []")
      case True
      then show ?thesis by simp
    next
      case False
      then have "proper_chunk (last X)" "bucket_rank (last X) < 2"
        using X last_in_set by blast+
      then show ?thesis
        using hdS Sne ne by auto
    qed
    then have b1: "blank_rec (X @ S @ Y) = blank_rec X @ blank_rec (S @ Y)"
      by (intro blank_rec_append) auto
    have "Y = [] \<or> last S \<noteq> hd Y"
    proof (cases Y)
      case Nil
      then show ?thesis by simp
    next
      case (Cons c Y')
      then have "2 < bucket_rank c"
        using Y by simp
      then show ?thesis
        using lS Cons by auto
    qed
    then have b2: "blank_rec (S @ Y) = blank_rec S @ blank_rec Y"
      by (intro blank_rec_append) auto
    have "filter (\<lambda>c. bucket_rank c = 2) (filter (\<lambda>c. c \<noteq> []) (blank_rec X)) = []"
      using X by (auto simp: filter_empty_conv dest!: mem_blank_rec)
    moreover have "filter (\<lambda>c. bucket_rank c = 2) (filter (\<lambda>c. c \<noteq> []) (blank_rec Y)) = []"
      using Y by (auto simp: filter_empty_conv dest!: mem_blank_rec)
    moreover have "filter (\<lambda>c. bucket_rank c = 2) (filter (\<lambda>c. c \<noteq> []) (blank_rec S)) =
        filter (\<lambda>c. c \<noteq> []) (blank_rec S)"
    proof (rule filter_True, rule ballI)
      fix c
      assume "c \<in> set (filter (\<lambda>c. c \<noteq> []) (blank_rec S))"
      then have "c \<noteq> []" "c \<in> set (blank_rec S)"
        by simp_all
      then have "c \<in> set S"
        using mem_blank_rec [of c S] by simp
      then show "bucket_rank c = 2"
        using S \<open>c \<noteq> []\<close> by blast
    qed
    ultimately have seg: "filter (\<lambda>c. bucket_rank c = 2) N = filter (\<lambda>c. c \<noteq> []) (blank_rec S)"
      unfolding N_def b1 b2 by (simp only: filter_append append_Nil append_Nil2)
    have "last (blank_rec S) = last S"
      using Sne by (rule last_blank_rec)
    then have lastseg: "last (filter (\<lambda>c. c \<noteq> []) (blank_rec S)) = last S"
      using lS(1) Sne last_filter_keep [of "blank_rec S" "\<lambda>c. c \<noteq> []"]
      by (simp add: blank_rec_Nil_iff)
    show ?thesis
    proof
      assume "\<exists>r \<in> set (filter (\<lambda>c. bucket_rank c = 2) N). is_coeng_ro r"
      then obtain r where r: "r \<in> set (blank_rec S)" "is_coeng_ro r"
        unfolding seg by auto
      then have "r \<noteq> []"
        by (auto simp: is_coeng_ro_def)
      then have "r \<in> set S"
        using r(1) by (auto dest!: mem_blank_rec)
      then have "is_coeng_ro (last S)"
        using r(2) unfolding S_def by (rule ro_last_last)
      then show "is_coeng_ro (last (filter (\<lambda>c. bucket_rank c = 2) N))"
        by (simp only: seg lastseg)
    qed
  qed
  from 1 2 3 4 show ?thesis
    by (rule that)
qed

lemma first_pass_output:
  assumes base: "CONS_OR_INDEPVOWEL b" and wf: "wf_tail t"
  obtains M where "reorderSyll (b # t) = b # concat M" "\<forall>c \<in> set M. proper_chunk c"
    "sorted (map bucket_rank M)"
    "(\<exists>r \<in> set (filter (\<lambda>c. bucket_rank c = 2) M). is_coeng_ro r) \<longrightarrow>
       is_coeng_ro (last (filter (\<lambda>c. bucket_rank c = 2) M))"
proof (cases "t = []")
  case True
  have "reorderSyll (b # t) = b # concat []" "\<forall>c \<in> set []. proper_chunk c"
    "sorted (map bucket_rank [])"
    "(\<exists>r \<in> set (filter (\<lambda>c. bucket_rank c = 2) []). is_coeng_ro r) \<longrightarrow>
       is_coeng_ro (last (filter (\<lambda>c. bucket_rank c = 2) []))"
    using True by (simp_all add: reorderSyll_def)
  then show ?thesis
    by (rule that)
next
  case False
  obtain N where N: "rejoin (b # t) = b # concat N" "\<forall>c \<in> set N. proper_chunk c"
    "sorted (map bucket_rank N)"
    "(\<exists>r \<in> set (filter (\<lambda>c. bucket_rank c = 2) N). is_coeng_ro r) \<longrightarrow>
       is_coeng_ro (last (filter (\<lambda>c. bucket_rank c = 2) N))"
    using joined_chunks [OF base wf] by blast
  define Nlo where "Nlo = filter (\<lambda>c. bucket_rank c < 3) N"
  define Nmid where "Nmid = filter (\<lambda>c. bucket_rank c = 3) N"
  define Nhi where "Nhi = filter (\<lambda>c. Suc 3 \<le> bucket_rank c) N"
  define d where "d = fuse3 (fuse2 (fuse1 (concat Nmid)))"
  define M where "M = Nlo @ map (\<lambda>x. [x]) d @ Nhi"
  have split3: "N = Nlo @ Nmid @ Nhi"
    using sorted_key_split_less [OF N(3), of 3] sorted_key_split [OF N(3), of 3]
    by (simp add: Nlo_def Nmid_def Nhi_def)
  have lo: "\<forall>c \<in> set Nlo. proper_chunk c \<and> bucket_rank c < 3"
    and mid: "\<forall>c \<in> set Nmid. proper_chunk c \<and> bucket_rank c = 3"
    and hi: "\<forall>c \<in> set Nhi. proper_chunk c \<and> 3 < bucket_rank c"
    using N(2) by (auto simp: Nlo_def Nmid_def Nhi_def)
  have "\<not> DEPVOWEL b"
    using base by (auto simp: class_defs)
  moreover have "\<forall>x \<in> set (concat Nlo). \<not> DEPVOWEL x"
    using lo proper_chunk_no_depvowel by fastforce
  ultimately have pre: "\<forall>x \<in> set (b # concat Nlo). \<not> DEPVOWEL x"
    by simp
  have post: "\<forall>x \<in> set (concat Nhi). \<not> DEPVOWEL x"
    using hi proper_chunk_no_depvowel by fastforce
  have "\<forall>x \<in> set (concat Nmid). DEPVOWEL x"
    using mid proper_chunk_depvowel by fastforce
  then have dd: "\<forall>x \<in> set d. DEPVOWEL x"
    unfolding d_def by (rule fuse_depvowels)
  have md: "\<forall>c \<in> set (map (\<lambda>x. [x]) d). proper_chunk c \<and> bucket_rank c = 3"
    using dd depvowel_chunk by auto
  have "fuse3 (fuse2 (fuse1 ((b # concat Nlo) @ concat Nmid @ concat Nhi))) =
      (b # concat Nlo) @ d @ concat Nhi"
    unfolding d_def using pre post by (rule fuse_middle)
  moreover have "concat (map (\<lambda>x. [x]) d) = d"
    by (induction d) auto
  ultimately have "fuse3 (fuse2 (fuse1 (rejoin (b # t)))) = b # concat M"
    by (simp add: N(1) split3 M_def)
  then have 1: "reorderSyll (b # t) = b # concat M"
    using False base by (simp add: reorderSyll_def re_match_class_def)
  have 2: "\<forall>c \<in> set M. proper_chunk c"
    using lo md hi by (auto simp: M_def)
  have "sorted (map bucket_rank Nlo)" "sorted (map bucket_rank Nhi)"
    using N(3) by (simp_all add: Nlo_def Nhi_def sorted_filter)
  moreover have "sorted (map bucket_rank (map (\<lambda>x. [x]) d))"
    using md by (intro sorted_map_const [of _ _ 3]) blast
  ultimately have 3: "sorted (map bucket_rank M)"
    using lo md hi unfolding M_def by (fastforce simp: sorted_append)
  have "filter (\<lambda>c. bucket_rank c = 2) (map (\<lambda>x. [x]) d) = []"
    "filter (\<lambda>c. bucket_rank c = 2) Nmid = []"
    "filter (\<lambda>c. bucket_rank c = 2) Nhi = []"
    using md mid hi by (auto simp: filter_empty_conv)
  then have "filter (\<lambda>c. bucket_rank c = 2) M = filter (\<lambda>c. bucket_rank c = 2) N"
    by (simp add: M_def split3)
  then have 4: "(\<exists>r \<in> set (filter (\<lambda>c. bucket_rank c = 2) M). is_coeng_ro r) \<longrightarrow>
       is_coeng_ro (last (filter (\<lambda>c. bucket_rank c = 2) M))"
    using N(4) by (simp only:)
  from 1 2 3 4 show ?thesis
    by (rule that)
qed

section \<open>A second pass over a settled syllable\<close>

lemma rejoin_canonical:
  assumes "\<forall>c \<in> set M. proper_chunk c" "sorted (map bucket_rank M)" "distinct_adj ([b] # M)"
    "\<forall>c \<in> set (butlast (filter (\<lambda>c. bucket_rank c = 2) M)). \<not> is_coeng_ro c"
  shows "rejoin (b # concat M) = b # concat M"
proof -
  note cp = classify_proper [OF assms(1,2)]
  have ch: "chunks_of (concat M) = M"
    using assms(1,2) by (rule chunks_of_concat_proper)
  have "ro_last (coeng (classify M)) = coeng (classify M)"
    using assms(4) by (simp add: ro_last_id cp(2))
  then have "assemble (b # concat M) = [b] # M"
    using cp(1) by (simp add: assemble_Cons ch)
  moreover have "remdups_adj ([b] # M) = [b] # M"
    using assms(3) by (simp only: distinct_adj_altdef)
  ultimately show ?thesis
    by (simp add: rejoin_eq concat_blank_rec_remdups)
qed

lemma reorderSyll_settled:
  assumes base: "CONS_OR_INDEPVOWEL b" and wf: "wf_tail t" and st: "t \<noteq> [] \<longrightarrow> settled (b # t)"
  shows "reorderSyll (reorderSyll (b # t)) = reorderSyll (b # t)"
    and "\<exists>ty. reorderSyll (b # t) = b # ty \<and> wf_tail ty"
proof -
  have "reorderSyll (reorderSyll (b # t)) = reorderSyll (b # t) \<and>
        (\<exists>ty. reorderSyll (b # t) = b # ty \<and> wf_tail ty)"
  proof (cases "t = []")
    case True
    then show ?thesis
      by (simp add: reorderSyll_def wf_tail_Nil)
  next
    case False
    obtain M where M: "reorderSyll (b # t) = b # concat M" "\<forall>c \<in> set M. proper_chunk c"
      "sorted (map bucket_rank M)"
      "(\<exists>r \<in> set (filter (\<lambda>c. bucket_rank c = 2) M). is_coeng_ro r) \<longrightarrow>
         is_coeng_ro (last (filter (\<lambda>c. bucket_rank c = 2) M))"
      using first_pass_output [OF base wf] by blast
    have ch: "chunks_of (concat M) = M"
      using M(2,3) by (rule chunks_of_concat_proper)
    have wfM: "wf_tail (concat M)"
      using M(2) by (rule wf_tail_concat_proper)
    from False st have "settled (b # t)"
      by simp
    then have da: "distinct_adj M" and one: "length (filter is_coeng_ro M) \<le> 1"
      by (simp_all add: settled_def M(1) ch)
    define seg where "seg = filter (\<lambda>c. bucket_rank c = 2) M"
    have fs: "filter is_coeng_ro seg = filter is_coeng_ro M"
      unfolding seg_def filter_filter
      by (rule filter_cong) (auto dest: is_coeng_ro_rank)
    have noro: "\<forall>c \<in> set (butlast seg). \<not> is_coeng_ro c"
    proof (rule ballI, rule notI)
      fix c
      assume c: "c \<in> set (butlast seg)" and ro: "is_coeng_ro c"
      then have ne: "seg \<noteq> []"
        by auto
      have "c \<in> set seg"
        using c by (rule in_set_butlastD)
      then have "is_coeng_ro (last seg)"
        using M(4) ro unfolding seg_def by blast
      moreover have "seg = butlast seg @ [last seg]"
        using ne by simp
      ultimately have "filter is_coeng_ro seg = filter is_coeng_ro (butlast seg) @ [last seg]"
        by (metis filter.simps(1,2) filter_append)
      moreover have "filter is_coeng_ro (butlast seg) \<noteq> []"
        using c ro by (auto simp: filter_empty_conv)
      ultimately have "2 \<le> length (filter is_coeng_ro seg)"
        by (cases "filter is_coeng_ro (butlast seg)") auto
      then show False
        using one by (simp add: fs)
    qed
    have "M = [] \<or> hd M \<noteq> [b]"
    proof (cases M)
      case Nil
      then show ?thesis by simp
    next
      case (Cons c M')
      then have "proper_chunk c"
        using M(2) by simp
      then show ?thesis
        using Cons base proper_chunk_hd [of c] by (cases c) auto
    qed
    then have "distinct_adj ([b] # M)"
      using da by (cases M) auto
    with M(2,3) have "rejoin (b # concat M) = b # concat M"
      using noro unfolding seg_def by (rule rejoin_canonical)
    moreover have "fuse3 (fuse2 (fuse1 (reorderSyll (b # t)))) = reorderSyll (b # t)"
      using False base by (simp add: reorderSyll_def re_match_class_def fuse_idem)
    ultimately have "reorderSyll (b # concat M) = b # concat M"
      using M(1) by (simp add: reorderSyll_def)
    then show ?thesis
      using M(1) wfM by simp
  qed
  then show "reorderSyll (reorderSyll (b # t)) = reorderSyll (b # t)"
    and "\<exists>ty. reorderSyll (b # t) = b # ty \<and> wf_tail ty"
    by blast+
qed

section \<open>Syllables that a second pass leaves as they are\<close>

lemma str_replace_pair_length_eq:
  "length (str_replace [p, q] [n] s) = length s \<Longrightarrow> str_replace [p, q] [n] s = s"
proof (induction s rule: induct_list012)
  case 1
  then show ?case by (simp add: str_replace_pair_Nil)
next
  case (2 x)
  then show ?case by (simp add: str_replace_pair_single)
next
  case (3 x y r)
  show ?case
  proof (cases "x = p \<and> y = q")
    case True
    then have "length (str_replace [p, q] [n] (x # y # r)) = Suc (length (str_replace [p, q] [n] r))"
      by (simp add: str_replace_pair_Cons del: str_replace.simps)
    moreover have "length (str_replace [p, q] [n] r) \<le> length r"
      by (rule length_str_replace_pair)
    ultimately show ?thesis
      using "3.prems" by simp
  next
    case False
    have eq: "str_replace [p, q] [n] (x # y # r) = x # str_replace [p, q] [n] (y # r)"
      using False by (auto simp: str_replace_pair_Cons simp del: str_replace.simps)
    then have "length (str_replace [p, q] [n] (y # r)) = length (y # r)"
      using "3.prems" by simp
    then have "str_replace [p, q] [n] (y # r) = y # r"
      by (rule "3.IH"(2))
    then show ?thesis
      unfolding eq by simp
  qed
qed

lemma fuse_length_eq:
  assumes "length (fuse3 (fuse2 (fuse1 z))) = length z"
  shows "fuse3 (fuse2 (fuse1 z)) = z"
proof -
  have l1: "length (fuse1 z) \<le> length z"
    and l2: "length (fuse2 (fuse1 z)) \<le> length (fuse1 z)"
    and l3: "length (fuse3 (fuse2 (fuse1 z))) \<le> length (fuse2 (fuse1 z))"
    unfolding fuse1_def fuse2_def fuse3_def by (rule length_str_replace_pair)+
  have "length (fuse1 z) = length z"
    using assms l1 l2 l3 by linarith
  then have 1: "fuse1 z = z"
    unfolding fuse1_def by (rule str_replace_pair_length_eq)
  have "length (fuse2 z) = length z"
    using assms l1 l2 l3 unfolding 1 by linarith
  then have 2: "fuse2 z = z"
    unfolding fuse2_def by (rule str_replace_pair_length_eq)
  have "length (fuse3 z) = length z"
    using assms unfolding 1 2 .
  then have 3: "fuse3 z = z"
    unfolding fuse3_def by (rule str_replace_pair_length_eq)
  show ?thesis
    by (simp only: 1 2 3)
qed

lemma blank_rec_length_eq:
  "length (concat (blank_rec A)) = length (concat A) \<Longrightarrow> blank_rec A = A"
proof (induction A rule: blank_rec.induct)
  case 1
  then show ?case by simp
next
  case (2 x)
  then show ?case by simp
next
  case (3 x y r)
  have le: "length (concat (blank_rec (y # r))) \<le> length (concat (y # r))"
    by (rule length_concat_blank_rec)
  show ?case
  proof (cases "y = x")
    case True
    have "length (concat (blank_rec (x # y # r))) = length (concat (blank_rec (y # r)))"
      using True by simp
    then have x: "x = []" and "length (concat (blank_rec (y # r))) = length (concat (y # r))"
      using "3.prems" le by auto
    then have "blank_rec (y # r) = y # r"
      by (intro "3.IH")
    then show ?thesis
      using True x by simp
  next
    case False
    then have "length (concat (blank_rec (y # r))) = length (concat (y # r))"
      using "3.prems" by simp
    then have "blank_rec (y # r) = y # r"
      by (rule "3.IH")
    then show ?thesis
      using False by simp
  qed
qed

lemma blank_rec_id_distinct:
  "blank_rec L = L \<Longrightarrow> \<forall>c \<in> set L. c \<noteq> [] \<Longrightarrow> distinct_adj L"
proof (induction L rule: blank_rec.induct)
  case (3 x y r)
  then have "y \<noteq> x" "blank_rec (y # r) = y # r"
    by (auto split: if_splits)
  then show ?case
    using 3 by simp
qed simp_all

lemma blank_rec_id_adjacent: "blank_rec (U @ x # x # V) = U @ x # x # V \<Longrightarrow> x = []"
proof (induction U)
  case Nil
  then show ?case by simp
next
  case (Cons u U)
  then have "blank_rec (U @ x # x # V) = U @ x # x # V"
    by (cases "U @ x # x # V") (auto split: if_splits)
  then show ?case
    by (rule Cons.IH)
qed

lemma rotate_hd:
  assumes "x # R = R @ [x]" "R \<noteq> []"
  shows "hd R = x"
proof (cases R)
  case Nil
  then show ?thesis
    using assms(2) by simp
next
  case (Cons a R')
  have "x # a # R' = a # (R' @ [x])"
    using assms(1) unfolding Cons by simp
  then have "x = a"
    by simp
  then show ?thesis
    by (simp add: Cons)
qed

lemma settled_necessary:
  assumes base: "CONS_OR_INDEPVOWEL b" and wf: "wf_tail t"
    and idem: "reorderSyll (reorderSyll (b # t)) = reorderSyll (b # t)"
  shows "settled (b # t)"
proof -
  obtain M where M: "reorderSyll (b # t) = b # concat M" "\<forall>c \<in> set M. proper_chunk c"
    "sorted (map bucket_rank M)"
    "(\<exists>r \<in> set (filter (\<lambda>c. bucket_rank c = 2) M). is_coeng_ro r) \<longrightarrow>
       is_coeng_ro (last (filter (\<lambda>c. bucket_rank c = 2) M))"
    using first_pass_output [OF base wf] by blast
  have ch: "chunks_of (concat M) = M"
    using M(2,3) by (rule chunks_of_concat_proper)
  have ne: "\<forall>c \<in> set M. c \<noteq> []"
    using M(2) proper_chunk_hd by blast
  define C where "C = filter (\<lambda>c. bucket_rank c = 2) M"
  define X where "X = rs (classify M) @ robat (classify M)"
  define Y where "Y = dv (classify M) @ nonsp (classify M) @ sp (classify M)"
  note cp = classify_proper [OF M(2,3)]
  have split3: "M = X @ C @ Y"
    using cp(1) by (simp add: X_def Y_def C_def cp(2))
  have fs: "filter is_coeng_ro C = filter is_coeng_ro M"
    unfolding C_def filter_filter
    by (rule filter_cong) (auto dest: is_coeng_ro_rank)
  have Cp: "\<forall>c \<in> set C. proper_chunk c \<and> bucket_rank c = 2"
    using M(2) by (simp add: C_def)
  have "distinct_adj M \<and> length (filter is_coeng_ro M) \<le> 1"
  proof (cases "M = []")
    case True
    then show ?thesis by simp
  next
    case False
    define y where "y = b # concat M"
    define A where "A = [b] # X @ ro_last C @ Y"
    have "concat M \<noteq> []"
      using False ne by (cases M) auto
    then have ry: "reorderSyll y = fuse3 (fuse2 (fuse1 (rejoin y)))"
      using base by (simp add: reorderSyll_def y_def re_match_class_def)
    have asm: "assemble y = A"
      by (simp add: y_def assemble_Cons ch A_def X_def Y_def cp(2) C_def)
    have lenA: "length (concat A) = length y"
      by (simp add: A_def y_def split3 length_concat_ro_last)
    have idem': "fuse3 (fuse2 (fuse1 (rejoin y))) = y"
      using idem ry by (simp add: M(1) y_def)
    have "length (fuse3 (fuse2 (fuse1 (rejoin y)))) \<le> length (rejoin y)"
      unfolding fuse1_def fuse2_def fuse3_def
      by (meson length_str_replace_pair order_trans)
    then have l1: "length y \<le> length (rejoin y)"
      by (simp only: idem')
    have l2: "length (rejoin y) \<le> length (concat A)"
      unfolding rejoin_eq asm by (rule length_concat_blank_rec)
    have "length (concat (blank_rec A)) = length (concat A)"
      using l1 l2 lenA by (simp add: rejoin_eq asm)
    then have bA: "blank_rec A = A"
      by (rule blank_rec_length_eq)
    have rj: "rejoin y = concat A"
      by (simp add: rejoin_eq asm bA)
    have "length y = length (rejoin y)"
      using lenA by (simp add: rj)
    then have "length (fuse3 (fuse2 (fuse1 (rejoin y)))) = length (rejoin y)"
      by (simp only: idem')
    then have "fuse3 (fuse2 (fuse1 (rejoin y))) = rejoin y"
      by (rule fuse_length_eq)
    then have "concat A = y"
      using idem' rj by simp
    then have cc: "concat (ro_last C) = concat C"
      by (simp add: A_def y_def split3)
    have noro: "filter is_coeng_ro (butlast C) = []"
    proof (rule ccontr)
      assume R: "filter is_coeng_ro (butlast C) \<noteq> []"
      define B0 where "B0 = butlast C"
      define l where "l = last C"
      have Cne: "C \<noteq> []"
        using R by auto
      then have C: "C = B0 @ [l]"
        by (simp add: B0_def l_def)
      have rl: "ro_last C = map blank_ro B0 @ [l] @ filter is_coeng_ro B0"
        using Cne by (simp add: ro_last_eq B0_def l_def)
      obtain r where "r \<in> set B0" "is_coeng_ro r"
        using R unfolding B0_def [symmetric] by (auto simp: filter_empty_conv)
      then have "\<exists>r \<in> set C. is_coeng_ro r"
        unfolding C by auto
      then have lro: "is_coeng_ro l"
        using M(4) unfolding C_def [symmetric] l_def by blast
      have Bne: "\<forall>e \<in> set B0. e \<noteq> []" and lne: "l \<noteq> []"
        using Cp proper_chunk_hd unfolding C by auto
      let ?L = "filter (\<lambda>c. \<not> is_coeng_ro c) B0 @ [l] @ filter is_coeng_ro B0"
      have "filter (\<lambda>c. c \<noteq> []) (filter is_coeng_ro B0) = filter is_coeng_ro B0"
        by (simp add: filter_ro_nonempty conj_commute)
      then have L: "filter (\<lambda>c. c \<noteq> []) (ro_last C) = ?L"
        using lne by (simp add: rl filter_blank_ro [OF Bne])
      have Lp: "\<forall>c \<in> set ?L. proper_chunk c \<and> bucket_rank c = 2"
        using Cp unfolding C by auto
      then have "sorted (map bucket_rank ?L)"
        by (intro sorted_map_const [of _ _ 2]) blast
      moreover have "\<forall>c \<in> set ?L. proper_chunk c"
        using Lp by blast
      ultimately have "chunks_of (concat ?L) = ?L"
        by (intro chunks_of_concat_proper)
      moreover have "concat ?L = concat C"
        using cc concat_filter_nonempty [of "ro_last C"] by (simp only: L)
      moreover have "chunks_of (concat C) = C"
        using Cp by (intro chunks_of_concat_proper sorted_map_const [of _ _ 2]) blast+
      ultimately have "?L = C"
        by simp
      then have "filter is_coeng_ro ?L = filter is_coeng_ro (B0 @ [l])"
        by (simp only: C)
      then have "l # filter is_coeng_ro B0 = filter is_coeng_ro B0 @ [l]"
        using lro by simp
      moreover have Rne: "filter is_coeng_ro B0 \<noteq> []"
        using R by (simp add: B0_def)
      ultimately have "hd (filter is_coeng_ro B0) = l"
        by (rule rotate_hd)
      then obtain R' where "filter is_coeng_ro B0 = l # R'"
        using Rne by (cases "filter is_coeng_ro B0") auto
      then have "A = ([b] # X @ map blank_ro B0) @ l # l # (R' @ Y)"
        by (simp add: A_def rl)
      then have "blank_rec (([b] # X @ map blank_ro B0) @ l # l # (R' @ Y)) =
          ([b] # X @ map blank_ro B0) @ l # l # (R' @ Y)"
        using bA by simp
      then have "l = []"
        by (rule blank_rec_id_adjacent)
      then show False
        using lne by simp
    qed
    then have "ro_last C = C"
      by (simp add: ro_last_id filter_empty_conv)
    then have "blank_rec ([b] # M) = [b] # M"
      using bA by (simp add: A_def split3)
    then have "blank_rec M = M"
      by (cases M) (auto split: if_splits)
    then have "distinct_adj M"
      using ne by (rule blank_rec_id_distinct)
    moreover have "length (filter is_coeng_ro C) \<le> 1"
    proof (cases "C = []")
      case True
      then show ?thesis by simp
    next
      case False
      then have "C = butlast C @ [last C]"
        by simp
      then have "filter is_coeng_ro C = filter is_coeng_ro (butlast C) @ filter is_coeng_ro [last C]"
        by (metis filter_append)
      then show ?thesis
        using noro by simp
    qed
    ultimately show ?thesis
      by (simp add: fs)
  qed
  then show ?thesis
    by (simp add: settled_def M(1) ch)
qed

section \<open>Segmenting a reordered text again\<close>

lemma match_SYLLPAT_base:
  "CONS_OR_INDEPVOWEL c \<Longrightarrow> match_SYLLPAT (c # r) = Some (Suc (match_syll_tail r))"
  by (simp add: match_SYLLPAT_def)

lemma match_SYLLPAT_gap: "\<not> CONS_OR_INDEPVOWEL c \<Longrightarrow> match_SYLLPAT (c # r) = None"
  by (simp add: match_SYLLPAT_def)

lemma re_split_gap:
  "\<not> CONS_OR_INDEPVOWEL c \<Longrightarrow>
   re_split match_SYLLPAT p (c # r) = re_split match_SYLLPAT (p @ [c]) r"
  by (simp add: match_SYLLPAT_gap)

lemma re_split_base:
  "CONS_OR_INDEPVOWEL c \<Longrightarrow>
   re_split match_SYLLPAT p (c # r) =
     p # (c # take (match_syll_tail r) r) #
       re_split match_SYLLPAT [] (drop (match_syll_tail r) r)"
  by (simp add: match_SYLLPAT_base)

lemma re_split_pend_append:
  "re_split m (q @ p) u = (q @ hd (re_split m p u)) # tl (re_split m p u)"
proof (induction u arbitrary: p)
  case Nil
  then show ?case by simp
next
  case (Cons c r)
  show ?case
  proof (cases "m (c # r) = None \<or> m (c # r) = Some 0")
    case True
    then have "re_split m (q @ p) (c # r) = re_split m (q @ (p @ [c])) r"
      "re_split m p (c # r) = re_split m (p @ [c]) r"
      by auto
    then show ?thesis
      using Cons [of "p @ [c]"] by (simp del: re_split.simps)
  next
    case False
    then show ?thesis
      by auto
  qed
qed

lemma re_split_pend:
  "re_split m p u = (p @ hd (re_split m [] u)) # tl (re_split m [] u)"
  using re_split_pend_append [of m p "[]" u] by simp

lemma reorderSyll_gap: "s = [] \<or> \<not> CONS_OR_INDEPVOWEL (hd s) \<Longrightarrow> reorderSyll s = s"
  by (cases s) (auto simp: reorderSyll_def re_match_class_def)

lemma re_split_first_gap:
  "hd (re_split match_SYLLPAT [] u) = [] \<or>
   \<not> CONS_OR_INDEPVOWEL (hd (hd (re_split match_SYLLPAT [] u)))"
proof (cases u)
  case Nil
  then show ?thesis by simp
next
  case (Cons c r)
  show ?thesis
  proof (cases "CONS_OR_INDEPVOWEL c")
    case True
    then show ?thesis
      by (simp add: Cons re_split_base del: re_split.simps)
  next
    case False
    then show ?thesis
      using re_split_pend [of match_SYLLPAT "[c]" r]
      by (simp add: Cons re_split_gap del: re_split.simps)
  qed
qed

lemma reordered_Nil: "reordered [] = []"
  by (simp add: reordered_def reorderSyll_def)

lemma reordered_gap:
  assumes "\<not> CONS_OR_INDEPVOWEL c"
  shows "reordered (c # r) = c # reordered r"
proof -
  let ?X = "re_split match_SYLLPAT [] r"
  have X: "?X = hd ?X # tl ?X"
    using re_split_pend [of match_SYLLPAT "[]" r] by simp
  have "re_split match_SYLLPAT [] (c # r) = (c # hd ?X) # tl ?X"
    using re_split_pend [of match_SYLLPAT "[c]" r] assms by (simp add: re_split_gap del: re_split.simps)
  then have "reordered (c # r) = reorderSyll (c # hd ?X) @ concat (map reorderSyll (tl ?X))"
    by (simp add: reordered_def)
  moreover have "reordered r = reorderSyll (hd ?X) @ concat (map reorderSyll (tl ?X))"
    unfolding reordered_def by (subst X) simp
  moreover have "reorderSyll (c # hd ?X) = c # hd ?X"
    using assms by (simp add: reorderSyll_gap)
  moreover have "reorderSyll (hd ?X) = hd ?X"
    using re_split_first_gap [of r] by (rule reorderSyll_gap)
  ultimately show ?thesis
    by simp
qed

lemma reordered_gaps: "\<forall>x \<in> set g. \<not> CONS_OR_INDEPVOWEL x \<Longrightarrow> reordered (g @ w) = g @ reordered w"
  by (induction g) (simp_all add: reordered_gap)

lemma reordered_base:
  "CONS_OR_INDEPVOWEL c \<Longrightarrow>
   reordered (c # r) =
     reorderSyll (c # take (match_syll_tail r) r) @ reordered (drop (match_syll_tail r) r)"
  by (simp add: reordered_def re_split_base reorderSyll_def del: re_split.simps)

lemma reorderText_reordered: "reorderText t = reordered (regularizeText t)"
proof -
  have "concat (map reorderSyll (filter (\<lambda>s. s \<noteq> []) xs)) = concat (map reorderSyll xs)" for xs
    by (induction xs) (auto simp: reorderSyll_def)
  then show ?thesis
    by (simp add: reorderText_def syllables_def reordered_def)
qed

lemma match_coeng_cluster_take:
  assumes "match_coeng_cluster s = Some n"
  shows "match_coeng_cluster (take n s) = Some n"
proof -
  let ?k = "length (takeWhile (\<lambda>c. c = COENG) s)"
  have k: "n = Suc ?k" "0 < ?k" "?k < length s" "CONS_OR_INDEPVOWEL (s ! ?k)"
    using assms by (auto simp: match_coeng_cluster_def Let_def split: if_splits)
  have tk: "take ?k s = takeWhile (\<lambda>c. c = COENG) s"
    by (simp add: takeWhile_eq_take [symmetric])
  have tn: "take n s = takeWhile (\<lambda>c. c = COENG) s @ [s ! ?k]"
    using k tk by (simp add: take_Suc_conv_app_nth)
  have "s ! ?k \<noteq> COENG"
    using k(4) by (auto simp: class_defs)
  then have "takeWhile (\<lambda>c. c = COENG) (take n s) = takeWhile (\<lambda>c. c = COENG) s"
    unfolding tn by (simp add: takeWhile_tail)
  then show ?thesis
    using k unfolding match_coeng_cluster_def Let_def
    by (simp add: tn nth_append)
qed

lemma wf_tail_take: "wf_tail (take (match_syll_tail r) r)"
proof (induction r rule: length_induct)
  case (1 r)
  show ?case
  proof (cases "match_coeng_cluster r")
    case (Some n)
    then have n: "2 \<le> n" "n \<le> length r"
      using match_coeng_cluster_bounds by blast+
    let ?k = "match_syll_tail (drop n r)"
    have "length (drop n r) < length r"
      using n by simp
    then have IH: "wf_tail (take ?k (drop n r))"
      using 1 by blast
    have tk: "take (n + ?k) r = take n r @ take ?k (drop n r)"
      by (simp add: take_add)
    have cl: "match_coeng_cluster (take n r @ take ?k (drop n r)) = Some n"
      using match_coeng_cluster_append [OF match_coeng_cluster_take [OF Some]] .
    have "wf_tail (take n r @ take ?k (drop n r))"
      using IH n by (simp add: wf_tail_cluster [OF cl])
    then show ?thesis
      by (simp add: match_syll_tail_cluster [OF Some] tk)
  next
    case None
    show ?thesis
    proof (cases r)
      case Nil
      then show ?thesis by (simp add: wf_tail_Nil)
    next
      case (Cons x r')
      show ?thesis
      proof (cases "syll_mark x")
        case True
        then show ?thesis
          using 1 Cons by (simp add: match_syll_tail_mark wf_tail_mark)
      next
        case False
        then have "match_syll_tail r = 0"
          using None Cons by (simp add: match_syll_tail_stop)
        then show ?thesis by (simp add: wf_tail_Nil)
      qed
    qed
  qed
qed

lemma reorderSyll_base_first:
  assumes "CONS_OR_INDEPVOWEL b"
  shows "\<exists>ys. reorderSyll (b # t) = b # ys"
proof (cases "t = []")
  case True
  then show ?thesis by (simp add: reorderSyll_def)
next
  case False
  obtain rest where asm: "assemble (b # t) = [b] # rest" and rest: "\<forall>e \<in> set rest. mark_led e"
    using assemble_tail_mark_led [of b t] by (simp add: assemble_Cons)
  have "rest \<noteq> [] \<Longrightarrow> hd rest \<noteq> [b]"
    using rest assms by (cases rest) (auto simp: mark_led_def)
  then have "blank_rec (assemble (b # t)) = [b] # blank_rec rest"
    by (auto simp: asm blank_rec_Cons)
  then have rj: "rejoin (b # t) = b # concat (blank_rec rest)"
    by (simp add: rejoin_eq)
  have "b \<noteq> 0x17C1" "b \<noteq> 0x17B8"
    using assms by (auto simp: class_defs)
  then have "fuse3 (fuse2 (fuse1 (rejoin (b # t)))) =
        b # fuse3 (fuse2 (fuse1 (concat (blank_rec rest))))"
    unfolding rj fuse1_def fuse2_def fuse3_def
    by (simp add: str_replace_pair_skip del: str_replace.simps)
  then show ?thesis
    using False assms by (simp add: reorderSyll_def re_match_class_def)
qed

lemma match_syll_tail_zero:
  assumes "match_syll_tail w = 0" "w \<noteq> []"
  shows "match_coeng_cluster w = None" "\<not> syll_mark (hd w)"
proof -
  show "match_coeng_cluster w = None"
  proof (cases "match_coeng_cluster w")
    case (Some n)
    then show ?thesis
      using assms(1) match_coeng_cluster_bounds [OF Some]
      by (simp add: match_syll_tail_cluster [OF Some])
  qed simp
  show "\<not> syll_mark (hd w)"
    using assms by (cases w) (auto simp: match_syll_tail_mark)
qed

lemma reordered_stop:
  assumes "match_syll_tail w = 0"
  shows "match_syll_tail (reordered w) = 0"
proof (cases w)
  case Nil
  then show ?thesis
    by (simp add: reordered_Nil match_syll_tail_Nil)
next
  case (Cons c r)
  note zero = match_syll_tail_zero [OF assms, unfolded Cons, simplified]
  show ?thesis
  proof (cases "CONS_OR_INDEPVOWEL c")
    case True
    then obtain ys where "reorderSyll (c # take (match_syll_tail r) r) = c # ys"
      using reorderSyll_base_first by blast
    then have "reordered w = c # (ys @ reordered (drop (match_syll_tail r) r))"
      using True by (simp add: Cons reordered_base)
    moreover have "c \<noteq> COENG"
      using True by (auto simp: class_defs)
    ultimately show ?thesis
      using zero(2) by (simp add: match_syll_tail_stop match_coeng_cluster_not_coeng)
  next
    case gap: False
    show ?thesis
    proof (cases "c = COENG")
      case False
      then show ?thesis
        using gap zero(2)
        by (simp add: Cons reordered_gap match_syll_tail_stop match_coeng_cluster_not_coeng)
    next
      case True
      let ?P = "\<lambda>x. x = COENG"
      let ?tw = "takeWhile ?P w"
      let ?w2 = "dropWhile ?P w"
      have tw: "?tw \<noteq> []" "\<forall>x \<in> set ?tw. x = COENG" "hd ?tw = COENG"
        using True Cons by (auto dest: set_takeWhileD)
      have "\<forall>x \<in> set ?tw. \<not> CONS_OR_INDEPVOWEL x"
        using tw(2) by (auto simp: class_defs)
      then have "reordered (?tw @ ?w2) = ?tw @ reordered ?w2"
        by (rule reordered_gaps)
      then have v: "reordered w = ?tw @ reordered ?w2"
        by simp
      have not_mark: "\<not> syll_mark COENG"
        by (simp add: syll_mark_def class_defs)
      have "match_coeng_cluster (?tw @ reordered ?w2) = None"
      proof (cases ?w2)
        case Nil
        then have "reordered ?w2 = []"
          by (simp only: reordered_Nil)
        then have "?tw @ reordered ?w2 = ?tw"
          by simp
        moreover have "match_coeng_cluster ?tw = None"
          by (simp add: match_coeng_cluster_def)
        ultimately show ?thesis
          by simp
      next
        case (Cons d w3)
        then have d: "d \<noteq> COENG"
          using hd_dropWhile [of ?P w] by auto
        have "length w = length ?tw + length ?w2"
          by (metis length_append takeWhile_dropWhile_id)
        moreover have "0 < length ?w2"
          using Cons by simp
        ultimately have len: "length ?tw < length w"
          by linarith
        have "w = ?tw @ d # w3"
          using Cons by (metis takeWhile_dropWhile_id)
        then have wn: "w ! length ?tw = d"
          by (metis nth_append_length)
        have "\<not> CONS_OR_INDEPVOWEL d"
          using zero(1) tw(1) len wn \<open>w = c # r\<close>
          by (auto simp: match_coeng_cluster_def Let_def split: if_splits)
        then have r2: "reordered ?w2 = d # reordered w3"
          by (simp add: Cons reordered_gap)
        have "takeWhile ?P (?tw @ d # reordered w3) = ?tw"
          using d by (simp add: takeWhile_tail)
        then show ?thesis
          using \<open>\<not> CONS_OR_INDEPVOWEL d\<close>
          by (simp add: match_coeng_cluster_def r2 nth_append)
      qed
      moreover have "hd (?tw @ reordered ?w2) = COENG"
        using tw by simp
      ultimately show ?thesis
        using not_mark by (simp add: v match_syll_tail_stop)
    qed
  qed
qed

lemma re_split_SYLLPAT_segments:
  assumes "\<forall>x \<in> set p. \<not> CONS_OR_INDEPVOWEL x" "s \<in> set (re_split match_SYLLPAT p u)"
  shows "(\<forall>x \<in> set s. \<not> CONS_OR_INDEPVOWEL x) \<or>
         (\<exists>b t. s = b # t \<and> CONS_OR_INDEPVOWEL b \<and> wf_tail t)"
  using assms
proof (induction u arbitrary: p rule: length_induct)
  case (1 u)
  show ?case
  proof (cases u)
    case Nil
    then have "s = p"
      using "1.prems"(2) by simp
    then show ?thesis
      using "1.prems"(1) by simp
  next
    case (Cons c r)
    show ?thesis
    proof (cases "CONS_OR_INDEPVOWEL c")
      case False
      have a1: "\<forall>x \<in> set (p @ [c]). \<not> CONS_OR_INDEPVOWEL x"
        using "1.prems"(1) False by simp
      have "re_split match_SYLLPAT p u = re_split match_SYLLPAT (p @ [c]) r"
        unfolding Cons using False by (rule re_split_gap)
      then have a2: "s \<in> set (re_split match_SYLLPAT (p @ [c]) r)"
        using "1.prems"(2) by simp
      have less: "length r < length u"
        by (simp add: Cons)
      show ?thesis
        using "1.IH" less a1 a2 by blast
    next
      case True
      let ?k = "match_syll_tail r"
      let ?seg = "c # take ?k r"
      let ?rest = "drop ?k r"
      have "re_split match_SYLLPAT p u = p # ?seg # re_split match_SYLLPAT [] ?rest"
        unfolding Cons using True by (rule re_split_base)
      then have "s \<in> set (p # ?seg # re_split match_SYLLPAT [] ?rest)"
        using "1.prems"(2) by simp
      then consider "s = p" | "s = ?seg" | "s \<in> set (re_split match_SYLLPAT [] ?rest)"
        by auto
      then show ?thesis
      proof cases
        case 1
        then show ?thesis
          using "1.prems"(1) by simp
      next
        case 2
        then show ?thesis
          using True wf_tail_take [of r] by blast
      next
        case 3
        have less: "length ?rest < length u"
          by (simp add: Cons)
        have "\<forall>x \<in> set ([] :: str). \<not> CONS_OR_INDEPVOWEL x"
          by simp
        then show ?thesis
          using "1.IH" less 3 by blast
      qed
    qed
  qed
qed

lemma resplit_reordered_any:
  assumes "\<forall>x \<in> set p. \<not> CONS_OR_INDEPVOWEL x"
  shows "re_split match_SYLLPAT p (reordered u) = map reorderSyll (re_split match_SYLLPAT p u)"
  using assms
proof (induction u arbitrary: p rule: length_induct)
  case (1 u)
  have Rp: "reorderSyll q = q" if "\<forall>x \<in> set q. \<not> CONS_OR_INDEPVOWEL x" for q
    using that by (intro reorderSyll_gap) (cases q; simp)
  show ?case
  proof (cases u)
    case Nil
    then show ?thesis
      using Rp [OF "1.prems"] by (simp add: reordered_Nil)
  next
    case (Cons c r)
    show ?thesis
    proof (cases "CONS_OR_INDEPVOWEL c")
      case False
      have a2: "\<forall>x \<in> set (p @ [c]). \<not> CONS_OR_INDEPVOWEL x"
        using "1.prems" False by simp
      have less: "length r < length u"
        by (simp add: Cons)
      have IH: "re_split match_SYLLPAT (p @ [c]) (reordered r) =
            map reorderSyll (re_split match_SYLLPAT (p @ [c]) r)"
        using "1.IH" less a2 by blast
      then show ?thesis
        using False by (simp add: Cons reordered_gap re_split_gap del: re_split.simps)
    next
      case True
      let ?k = "match_syll_tail r"
      let ?seg = "c # take ?k r"
      let ?rest = "drop ?k r"
      have sp: "re_split match_SYLLPAT q u = q # ?seg # re_split match_SYLLPAT [] ?rest" for q
        using True by (simp add: Cons re_split_base del: re_split.simps)
      obtain M where M: "reorderSyll ?seg = c # concat M" "\<forall>c \<in> set M. proper_chunk c"
        "sorted (map bucket_rank M)"
        "(\<exists>r \<in> set (filter (\<lambda>c. bucket_rank c = 2) M). is_coeng_ro r) \<longrightarrow>
           is_coeng_ro (last (filter (\<lambda>c. bucket_rank c = 2) M))"
        using first_pass_output [OF True wf_tail_take [of r]] by blast
      define ty where "ty = concat M"
      have ty: "reorderSyll ?seg = c # ty" "wf_tail ty"
        using M(1) wf_tail_concat_proper [OF M(2)] by (simp_all add: ty_def)
      have ru: "reordered u = c # (ty @ reordered ?rest)"
        using True ty(1) by (simp add: Cons reordered_base)
      have "match_syll_tail (reordered ?rest) = 0"
        using match_syll_tail_greedy [of r] by (rule reordered_stop)
      then have mt: "match_syll_tail (ty @ reordered ?rest) = length ty"
        using ty(2) by (simp add: match_syll_tail_append)
      have less: "length ?rest < length u"
        by (simp add: Cons)
      have IH: "re_split match_SYLLPAT [] (reordered ?rest) =
            map reorderSyll (re_split match_SYLLPAT [] ?rest)"
      proof -
        have "\<forall>x \<in> set ([] :: str). \<not> CONS_OR_INDEPVOWEL x"
          by simp
        then show ?thesis
          using "1.IH" less by blast
      qed
      have "re_split match_SYLLPAT p (reordered u) =
          p # (c # ty) # re_split match_SYLLPAT [] (reordered ?rest)"
        unfolding ru using True mt by (simp add: re_split_base del: re_split.simps)
      then show ?thesis
        using IH ty(1) Rp [OF "1.prems"] by (simp add: sp del: re_split.simps)
    qed
  qed
qed

lemma concat_cmp_lengths:
  assumes "concat (map f xs) = concat (map g xs)" "\<forall>x \<in> set xs. length (f x) \<le> length (g x)"
  shows "\<forall>x \<in> set xs. f x = g x"
  using assms
proof (induction xs)
  case Nil
  then show ?case by simp
next
  case (Cons x xs)
  have "length (concat (map f xs)) \<le> length (concat (map g xs))"
    using Cons.prems(2) by (induction xs) (simp_all add: add_mono)
  moreover have "length (f x) + length (concat (map f xs)) = length (g x) + length (concat (map g xs))"
    using Cons.prems(1) by (metis concat.simps(2) length_append list.simps(9))
  moreover have "length (f x) \<le> length (g x)"
    using Cons.prems(2) by simp
  ultimately have "length (f x) = length (g x)"
    by linarith
  then have "f x = g x \<and> concat (map f xs) = concat (map g xs)"
    using Cons.prems(1) by simp
  then show ?case
    using Cons by simp
qed

lemma reordered_twice_iff:
  "reordered (reordered u) = reordered u \<longleftrightarrow>
   (\<forall>s \<in> set (re_split match_SYLLPAT [] u).
      length s > 1 \<and> re_match_class CONS_OR_INDEPVOWEL s \<longrightarrow> settled s)"
proof -
  let ?S = "re_split match_SYLLPAT [] u"
  have "\<forall>x \<in> set ([] :: str). \<not> CONS_OR_INDEPVOWEL x"
    by simp
  note gap = this
  note rs1 = resplit_reordered_any [OF gap, of u]
  have "reordered (reordered u) = concat (map reorderSyll (map reorderSyll ?S))"
    unfolding reordered_def rs1 [unfolded reordered_def] ..
  then have r2: "reordered (reordered u) = concat (map (\<lambda>s. reorderSyll (reorderSyll s)) ?S)"
    by (simp add: comp_def)
  have shape: "\<exists>b t. s = b # t \<and> CONS_OR_INDEPVOWEL b \<and> wf_tail t \<and> t \<noteq> []"
    if s: "s \<in> set ?S" "length s > 1" "re_match_class CONS_OR_INDEPVOWEL s" for s
  proof -
    have "\<not> (\<forall>x \<in> set s. \<not> CONS_OR_INDEPVOWEL x)"
      using s(3) by (cases s) (auto simp: re_match_class_def)
    then obtain b t where "s = b # t" "CONS_OR_INDEPVOWEL b" "wf_tail t"
      using re_split_SYLLPAT_segments [OF gap s(1)] by blast
    then show ?thesis
      using s(2) by auto
  qed
  show ?thesis
  proof
    assume eq: "reordered (reordered u) = reordered u"
    then have "concat (map (\<lambda>s. reorderSyll (reorderSyll s)) ?S) = reordered u"
      by (simp only: r2)
    then have "concat (map (\<lambda>s. reorderSyll (reorderSyll s)) ?S) = concat (map reorderSyll ?S)"
      by (simp only: reordered_def)
    moreover have "\<forall>s \<in> set ?S. length (reorderSyll (reorderSyll s)) \<le> length (reorderSyll s)"
      by (simp add: length_reorderSyll)
    ultimately have pt: "\<forall>s \<in> set ?S. reorderSyll (reorderSyll s) = reorderSyll s"
      by (rule concat_cmp_lengths)
    show "\<forall>s \<in> set ?S. length s > 1 \<and> re_match_class CONS_OR_INDEPVOWEL s \<longrightarrow> settled s"
    proof (intro ballI impI)
      fix s
      assume s: "s \<in> set ?S" "length s > 1 \<and> re_match_class CONS_OR_INDEPVOWEL s"
      then obtain b t where bt: "s = b # t" "CONS_OR_INDEPVOWEL b" "wf_tail t"
        using shape by blast
      have "reorderSyll (reorderSyll (b # t)) = reorderSyll (b # t)"
        using pt s(1) bt(1) by blast
      with bt(2,3) show "settled s"
        unfolding bt(1) by (rule settled_necessary)
    qed
  next
    assume st: "\<forall>s \<in> set ?S. length s > 1 \<and> re_match_class CONS_OR_INDEPVOWEL s \<longrightarrow> settled s"
    have "reorderSyll (reorderSyll s) = reorderSyll s" if s: "s \<in> set ?S" for s
    proof (cases "\<forall>x \<in> set s. \<not> CONS_OR_INDEPVOWEL x")
      case True
      then have "reorderSyll s = s"
        by (intro reorderSyll_gap) (cases s; simp)
      then show ?thesis
        by simp
    next
      case False
      then obtain b t where bt: "s = b # t" "CONS_OR_INDEPVOWEL b" "wf_tail t"
        using re_split_SYLLPAT_segments [OF gap s] by blast
      have "t \<noteq> [] \<longrightarrow> settled (b # t)"
        using st s bt(1,2) by (auto simp: re_match_class_def)
      with bt(2,3) show ?thesis
        unfolding bt(1) by (rule reorderSyll_settled(1))
    qed
    then have "map (\<lambda>s. reorderSyll (reorderSyll s)) ?S = map reorderSyll ?S"
      by simp
    then have "reordered (reordered u) = concat (map reorderSyll ?S)"
      by (simp only: r2)
    then show "reordered (reordered u) = reordered u"
      by (simp only: reordered_def)
  qed
qed

lemma set_concat_blank_rec_eq: "set (concat (blank_rec xs)) = set (concat xs)"
  by (induction xs rule: blank_rec.induct) auto

section \<open>Results on regularizeText\<close>

text \<open>
  C3. The spec's example gives U+17D4 U+17BB U+17D4 as the expansion of U+17D8. The
  program expands U+17D8 to U+17D4 U+179B U+17D4: the middle code point is the consonant
  LO, not the vowel sign U+17BB.
\<close>

theorem regularizeText_17D8: "regularizeText [0x17D8] = [0x17D4, 0x179B, 0x17D4]"
  by code_simp

theorem regularizeText_17D8_not_17BB: "regularizeText [0x17D8] \<noteq> [0x17D4, 0x17BB, 0x17D4]"
  by code_simp

text \<open>
  C10. Whatever the input, the output of \<open>regularizeText\<close> contains none of the nine
  code points that its rules replace or delete.
\<close>

theorem regularizeText_no_sources:
  "0x17A8 \<notin> set (regularizeText t) \<and> 0x17A3 \<notin> set (regularizeText t) \<and>
   0x17A4 \<notin> set (regularizeText t) \<and> 0x17B2 \<notin> set (regularizeText t) \<and>
   0x17B4 \<notin> set (regularizeText t) \<and> 0x17B5 \<notin> set (regularizeText t) \<and>
   0x17DD \<notin> set (regularizeText t) \<and> 0x17D3 \<notin> set (regularizeText t) \<and>
   0x17D8 \<notin> set (regularizeText t)"
  by (simp add: regularizeText_def mem_str_replace_single del: str_replace.simps(2))

section \<open>reorderSyll on what is not a real syllable\<close>

text \<open>
  C8. A syllable of length at most 1, and a syllable whose first code point is neither
  a consonant (U+1780 to U+17A2) nor an independent vowel (U+17A3 to U+17B3), is
  returned unchanged by \<open>reorderSyll\<close>.
\<close>

theorem reorderSyll_unchanged:
  assumes "length syll \<le> 1 \<or>
           (syll \<noteq> [] \<and> \<not> (0x1780 \<le> hd syll \<and> hd syll \<le> 0x17A2)
                      \<and> \<not> (0x17A3 \<le> hd syll \<and> hd syll \<le> 0x17B3))"
  shows "reorderSyll syll = syll"
  using assms
  by (cases syll)
     (auto simp: reorderSyll_def re_match_class_def CONS_OR_INDEPVOWEL_def CONS_def INDEPVOWEL_def)

theorem reorderSyll_unchanged_witness:
  "length [0x17B6 :: nat] \<le> 1 \<and> reorderSyll [0x17B6] = [0x17B6] \<and>
   \<not> (0x1780 \<le> hd [0x17C1 :: nat, 0x17B8] \<and> hd [0x17C1 :: nat, 0x17B8] \<le> 0x17A2) \<and>
   \<not> (0x17A3 \<le> hd [0x17C1 :: nat, 0x17B8] \<and> hd [0x17C1 :: nat, 0x17B8] \<le> 0x17B3) \<and>
   reorderSyll [0x17C1, 0x17B8] = [0x17C1, 0x17B8]"
  using reorderSyll_unchanged [of "[0x17B6]"] reorderSyll_unchanged [of "[0x17C1, 0x17B8]"]
  by simp

section \<open>Text without Khmer code points\<close>

lemma regularizeText_absent:
  assumes "\<forall>c \<in> set s. \<not> (0x1780 \<le> c \<and> c \<le> 0x17DD)"
  shows "regularizeText s = s"
proof -
  have "c \<notin> set s" if "0x1780 \<le> c" "c \<le> 0x17DD" for c
    using assms that by blast
  then show ?thesis
    by (simp add: regularizeText_def str_replace_single_absent del: str_replace.simps(2))
qed

lemma syllables_no_base:
  assumes "\<forall>c \<in> set s. \<not> CONS_OR_INDEPVOWEL c"
  shows "syllables s = (if s = [] then [] else [s])"
proof -
  have "re_split match_SYLLPAT [] s = [[] @ s]"
    using assms by (intro re_split_no_match) (simp add: match_SYLLPAT_def)
  then show ?thesis
    by (simp add: syllables_def)
qed

text \<open>
  C7. A text with no code point in the Khmer range U+1780 to U+17DD is returned
  unchanged by \<open>reorderText\<close>.
\<close>

theorem reorderText_non_khmer:
  assumes "\<forall>c \<in> set s. \<not> (0x1780 \<le> c \<and> c \<le> 0x17DD)"
  shows "reorderText s = s"
proof -
  have nb: "\<forall>c \<in> set s. \<not> CONS_OR_INDEPVOWEL c"
    using assms by (auto simp: CONS_OR_INDEPVOWEL_def CONS_def INDEPVOWEL_def)
  show ?thesis
  proof (cases s)
    case Nil
    then show ?thesis
      using nb by (simp add: reorderText_def regularizeText_absent syllables_no_base)
  next
    case (Cons c r)
    then have "\<not> CONS_OR_INDEPVOWEL c"
      using nb by simp
    then have "reorderSyll s = s"
      using Cons by (simp add: reorderSyll_def re_match_class_def)
    then show ?thesis
      using assms nb Cons
      by (simp add: reorderText_def regularizeText_absent syllables_no_base)
  qed
qed

theorem reorderText_non_khmer_witness:
  "reorderText [0x48, 0x200B, 0x0A, 0x17F0] = [0x48, 0x200B, 0x0A, 0x17F0]"
  using reorderText_non_khmer [of "[0x48, 0x200B, 0x0A, 0x17F0]"]
  by simp

section \<open>The base character\<close>

text \<open>
  C9. For a syllable of more than one code point that begins with a consonant or an
  independent vowel, the base character heads the reassembled list, survives the
  duplicate loop, heads the rejoined string and is left alone by the three fusions: the
  result of \<open>reorderSyll\<close> is not empty and begins with the input's first code
  point.
\<close>

theorem reorderSyll_keeps_base:
  assumes "length syll > 1"
    and "(0x1780 \<le> hd syll \<and> hd syll \<le> 0x17A2) \<or> (0x17A3 \<le> hd syll \<and> hd syll \<le> 0x17B3)"
  shows "hd (assemble syll) = [hd syll] \<and> hd (blank_dups (assemble syll)) = [hd syll] \<and>
         rejoin syll \<noteq> [] \<and> hd (rejoin syll) = hd syll \<and>
         reorderSyll syll \<noteq> [] \<and> hd (reorderSyll syll) = hd syll"
proof -
  obtain b t where syll: "syll = b # t"
    using assms(1) by (cases syll) auto
  have base: "CONS_OR_INDEPVOWEL b"
    using assms(2) by (simp add: syll CONS_OR_INDEPVOWEL_def CONS_def INDEPVOWEL_def)
  obtain rest where asm: "assemble syll = [b] # rest" and rest: "\<forall>e \<in> set rest. mark_led e"
    using assemble_tail_mark_led [of b t] by (simp add: syll assemble_Cons)
  have "rest \<noteq> [] \<Longrightarrow> hd rest \<noteq> [b]"
    using rest base by (cases rest) (auto simp: mark_led_def)
  then have bl: "blank_rec (assemble syll) = [b] # blank_rec rest"
    by (auto simp: asm blank_rec_Cons)
  then have rj: "rejoin syll = b # concat (blank_rec rest)"
    by (simp add: rejoin_eq)
  have b1: "b \<noteq> 0x17C1" and b2: "b \<noteq> 0x17B8"
    using base by (auto simp: CONS_OR_INDEPVOWEL_def CONS_def INDEPVOWEL_def)
  have "fuse3 (fuse2 (fuse1 (rejoin syll))) =
        b # fuse3 (fuse2 (fuse1 (concat (blank_rec rest))))"
    unfolding rj fuse1_def fuse2_def fuse3_def using b1 b2 by (simp add: str_replace_pair_skip del: str_replace.simps)
  moreover have "reorderSyll syll = fuse3 (fuse2 (fuse1 (rejoin syll)))"
    using assms(1) base by (simp add: reorderSyll_def syll re_match_class_def)
  ultimately show ?thesis
    using bl rj asm by (simp add: syll blank_dups_eq)
qed

theorem reorderSyll_keeps_base_witness:
  "hd (reorderSyll [0x1780, 0x17D2, 0x1780, 0x17D2, 0x1780]) = 0x1780 \<and>
   reorderSyll [0x1780, 0x17D2, 0x1780, 0x17D2, 0x1780] = [0x1780, 0x17D2, 0x1780]"
proof -
  have "reorderSyll [0x1780, 0x17D2, 0x1780, 0x17D2, 0x1780] = [0x1780, 0x17D2, 0x1780]"
    by code_simp
  then show ?thesis
    using reorderSyll_keeps_base [of "[0x1780, 0x17D2, 0x1780, 0x17D2, 0x1780]"] by simp
qed

section \<open>Where the robat goes\<close>

text \<open>
  C4. The class \<open>NONSPACING\<close> of the program is U+17C6, U+17CB, U+17CD to U+17D1 and
  U+17DD: it leaves U+17CC out, so a robat chunk falls through to the last test of the
  chain and lands in the robat bucket, not among the non-spacing diacritics. In the
  output the robat comes before the dependent vowels.
\<close>

theorem robat_not_nonspacing:
  "\<not> NONSPACING 0x17CC \<and>
   [0x17CC] \<notin> set (nonsp (classify (chunks_of [0x17B6, 0x17CC]))) \<and>
   robat (classify (chunks_of [0x17B6, 0x17CC])) = [[0x17CC]] \<and>
   reorderSyll [0x1780, 0x17B6, 0x17CC] = [0x1780, 0x17CC, 0x17B6]"
  by code_simp

text \<open>
  C4 as the program has it. For a syllable of more than one code point that begins with
  a consonant or an independent vowel and has U+17CC in its tail, the chunk U+17CC is in
  the robat bucket and not in the non-spacing bucket, and the output is: the base
  character; then the register-shifter bucket after the duplicate loop, which holds
  register shifters only and every register shifter of the bucket; then a single
  U+17CC; then the coeng chunks (after the ro loop), dependent vowels, non-spacing and
  spacing diacritics after the duplicate loop and the fusions, which hold no further
  U+17CC.
\<close>

theorem robat_placement:
  assumes "length syll > 1"
    and "(0x1780 \<le> hd syll \<and> hd syll \<le> 0x17A2) \<or> (0x17A3 \<le> hd syll \<and> hd syll \<le> 0x17B3)"
    and "0x17CC \<in> set (tl syll)"
  shows "[0x17CC] \<in> set (chunks_of (tl syll)) \<and>
         [0x17CC] \<in> set (robat (classify (chunks_of (tl syll)))) \<and>
         [0x17CC] \<notin> set (nonsp (classify (chunks_of (tl syll)))) \<and>
         reorderSyll syll =
           hd syll # concat (blank_dups (rs (classify (chunks_of (tl syll))))) @
           0x17CC #
           fuse3 (fuse2 (fuse1 (concat (blank_dups
             (ro_last (coeng (classify (chunks_of (tl syll)))) @
              dv (classify (chunks_of (tl syll))) @
              nonsp (classify (chunks_of (tl syll))) @
              sp (classify (chunks_of (tl syll)))))))) \<and>
         (\<forall>x \<in> set (concat (blank_dups (rs (classify (chunks_of (tl syll)))))).
            x = 0x17C9 \<or> x = 0x17CA) \<and>
         set (concat (blank_dups (rs (classify (chunks_of (tl syll)))))) =
           set (concat (rs (classify (chunks_of (tl syll))))) \<and>
         0x17CC \<notin> set (fuse3 (fuse2 (fuse1 (concat (blank_dups
             (ro_last (coeng (classify (chunks_of (tl syll)))) @
              dv (classify (chunks_of (tl syll))) @
              nonsp (classify (chunks_of (tl syll))) @
              sp (classify (chunks_of (tl syll)))))))))"
proof -
  obtain b t where syll: "syll = b # t"
    using assms(1) by (cases syll) auto
  have base: "CONS_OR_INDEPVOWEL b"
    using assms(2) by (simp add: syll CONS_OR_INDEPVOWEL_def CONS_def INDEPVOWEL_def)
  have rob_t: "ROBAT \<in> set t"
    using assms(3) by (simp add: syll ROBAT_def)
  define B where "B = classify (chunks_of t)"
  define shifts where "shifts = rs B"
  define more where "more = ro_last (coeng B) @ dv B @ nonsp B @ sp B"
  have in_chunks: "[ROBAT] \<in> set (chunks_of t)"
    using rob_t by (rule robat_chunk_present)
  then have in_robat: "[ROBAT] \<in> set (robat B)"
    by (simp add: B_def classify_buckets re_match_lit_def)
  have not_nonsp: "[ROBAT] \<notin> set (nonsp B)"
    by (simp add: B_def classify_buckets re_match_class_def class_defs)
  obtain n where "robat B = replicate (Suc n) [ROBAT]"
    using robat_bucket [of t] in_robat by (cases "length (robat B)") (auto simp: B_def)
  then obtain robs where robs: "robat B = robs" "robs \<noteq> []" "last robs = [ROBAT]"
      "hd robs = [ROBAT]" "concat (blank_rec robs) = [ROBAT]"
    using concat_blank_rec_replicate [of "[ROBAT]" n] by (simp del: replicate_Suc)
  have asm: "assemble syll = ([b] # shifts) @ (robs @ more)"
    by (simp add: syll assemble_Cons robs(1) [symmetric] B_def shifts_def more_def)
  have shifts_el: "\<exists>x. e = [x] \<and> REGSHIFTER x" if "e \<in> set shifts" for e
    using that rs_bucket [of e t] by (simp add: shifts_def B_def)
  have more_el: "ROBAT \<notin> set e" if "e \<in> set more" for e
    using that later_buckets_without_robat [of e t] by (simp add: more_def B_def)
  have shifts_first: "shifts = [] \<or> hd shifts \<noteq> [b]"
  proof (cases shifts)
    case Nil
    then show ?thesis by simp
  next
    case (Cons e es)
    then obtain x where "e = [x]" "REGSHIFTER x"
      using shifts_el [of e] by auto
    then show ?thesis
      using Cons base by (auto simp: class_defs)
  qed
  have shifts_last: "last ([b] # shifts) \<noteq> [ROBAT]"
  proof (cases "shifts = []")
    case True
    then show ?thesis
      using base by (auto simp: class_defs)
  next
    case False
    then obtain x where "last shifts = [x]" "REGSHIFTER x"
      using shifts_el [of "last shifts"] by auto
    then show ?thesis
      using False by (auto simp: class_defs)
  qed
  have more_first: "more = [] \<or> hd more \<noteq> [ROBAT]"
  proof (cases more)
    case Nil
    then show ?thesis by simp
  next
    case (Cons e es)
    then have "ROBAT \<notin> set e"
      using more_el [of e] by simp
    then show ?thesis
      using Cons by auto
  qed
  have "blank_rec (assemble syll) = blank_rec ([b] # shifts) @ blank_rec (robs @ more)"
    unfolding asm using shifts_last robs(2,4) by (intro blank_rec_append) simp
  moreover have "blank_rec (robs @ more) = blank_rec robs @ blank_rec more"
    using more_first robs(3) by (intro blank_rec_append) auto
  moreover have "blank_rec ([b] # shifts) = [b] # blank_rec shifts"
    using shifts_first by (auto simp: blank_rec_Cons)
  ultimately have blank: "blank_rec (assemble syll) =
      ([b] # blank_rec shifts) @ blank_rec robs @ blank_rec more"
    by simp
  define sh where "sh = concat (blank_rec shifts)"
  define r0 where "r0 = concat (blank_rec more)"
  have rj: "rejoin syll = (b # sh @ [ROBAT]) @ r0"
    by (simp add: rejoin_eq blank robs(5) sh_def r0_def)
  have sh: "REGSHIFTER x" if "x \<in> set sh" for x
  proof -
    from that obtain e where "e \<in> set shifts" "x \<in> set e"
      using set_concat_blank_rec [of shifts] by (auto simp: sh_def)
    then show ?thesis
      using shifts_el [of e] by auto
  qed
  have r0: "ROBAT \<notin> set r0"
  proof
    assume "ROBAT \<in> set r0"
    then obtain e where "e \<in> set more" "ROBAT \<in> set e"
      using set_concat_blank_rec [of more] by (auto simp: r0_def)
    then show False
      using more_el [of e] by simp
  qed
  have pre: "0x17C1 \<notin> set (b # sh @ [ROBAT])" "0x17B8 \<notin> set (b # sh @ [ROBAT])"
    using sh [of "0x17C1"] sh [of "0x17B8"] base by (auto simp: class_defs)
  define rest where "rest = fuse3 (fuse2 (fuse1 r0))"
  have "fuse3 (fuse2 (fuse1 (rejoin syll))) = (b # sh @ [ROBAT]) @ rest"
    unfolding rj rest_def fuse1_def fuse2_def fuse3_def
    by (simp only: str_replace_pair_prefix [OF pre(1)] str_replace_pair_prefix [OF pre(2)])
  moreover have "reorderSyll syll = fuse3 (fuse2 (fuse1 (rejoin syll)))"
    using assms(1) base by (simp add: reorderSyll_def syll re_match_class_def)
  ultimately have out: "reorderSyll syll = hd syll # sh @ 0x17CC # rest"
    by (simp add: syll ROBAT_def)
  have "set rest \<subseteq> set r0 \<union> {0x17BE, 0x17C4}"
    using set_str_replace_subset [of "[0x17C1, 0x17B6]" "[0x17C4]" "fuse2 (fuse1 r0)"]
      set_str_replace_subset [of "[0x17B8, 0x17C1]" "[0x17BE]" "fuse1 r0"]
      set_str_replace_subset [of "[0x17C1, 0x17B8]" "[0x17BE]" r0]
    unfolding rest_def fuse1_def fuse2_def fuse3_def by auto
  then have "0x17CC \<notin> set rest"
    using r0 by (auto simp: ROBAT_def)
  moreover have "\<forall>x \<in> set sh. x = 0x17C9 \<or> x = 0x17CA"
    using sh by (simp add: REGSHIFTER_def)
  moreover have "set sh = set (concat shifts)"
    unfolding sh_def by (rule set_concat_blank_rec_eq)
  moreover note out
  ultimately have e:
    "reorderSyll syll =
       hd syll # concat (blank_dups (rs B)) @ 0x17CC #
       fuse3 (fuse2 (fuse1 (concat (blank_dups (ro_last (coeng B) @ dv B @ nonsp B @ sp B)))))"
    "\<forall>x \<in> set (concat (blank_dups (rs B))). x = 0x17C9 \<or> x = 0x17CA"
    "set (concat (blank_dups (rs B))) = set (concat (rs B))"
    "0x17CC \<notin> set (fuse3 (fuse2 (fuse1 (concat (blank_dups
       (ro_last (coeng B) @ dv B @ nonsp B @ sp B))))))"
    unfolding blank_dups_eq sh_def rest_def r0_def shifts_def more_def by blast+
  have tl: "tl syll = t"
    by (simp add: syll)
  note f = in_chunks [unfolded ROBAT_def] in_robat [unfolded ROBAT_def]
    not_nonsp [unfolded ROBAT_def]
  show ?thesis
    unfolding tl B_def [symmetric] using e f by blast
qed

theorem robat_placement_witness:
  "[0x17CC] \<in> set (robat (classify (chunks_of (tl [0x1780, 0x17B6, 0x17CC, 0x17C9, 0x17CC])))) \<and>
   reorderSyll [0x1780, 0x17B6, 0x17CC, 0x17C9, 0x17CC] = [0x1780, 0x17C9, 0x17CC, 0x17B6]"
proof -
  have "reorderSyll [0x1780, 0x17B6, 0x17CC, 0x17C9, 0x17CC] = [0x1780, 0x17C9, 0x17CC, 0x17B6]"
    by code_simp
  then show ?thesis
    using robat_placement [of "[0x1780, 0x17B6, 0x17CC, 0x17C9, 0x17CC]"] by simp
qed

section \<open>The ro loop\<close>

text \<open>
  C2. The loop runs over all entries of the coeng bucket but the last. With two coeng+ro
  chunks in the bucket, the second being last, only the first is moved: it ends up
  after the second, so the two ro chunks change their relative order.
\<close>

theorem ro_order_reversed:
  "coeng (classify (chunks_of [0x17D2, 0x179A, 0x17C9, 0x17D2, 0x179A])) =
     [[0x17D2, 0x179A, 0x17C9], [0x17D2, 0x179A]] \<and>
   ro_last [[0x17D2, 0x179A, 0x17C9], [0x17D2, 0x179A]] =
     [[], [0x17D2, 0x179A], [0x17D2, 0x179A, 0x17C9]] \<and>
   reorderSyll [0x1780, 0x17D2, 0x179A, 0x17C9, 0x17D2, 0x179A] =
     [0x1780, 0x17D2, 0x179A, 0x17D2, 0x179A, 0x17C9]"
  by code_simp

text \<open>
  C2 as the program has it. For every tail, the coeng bucket after the loop, its blanked
  entries left out, is: the chunks not built on ro, in their original order; then the
  last chunk of the bucket if it is built on ro; then the other chunks built on ro, in
  their original order. So every coeng+ro chunk comes after every other coeng chunk
  and the other chunks keep their order, while a coeng+ro chunk that was last in the
  bucket comes first among the coeng+ro chunks.
\<close>

theorem ro_last_order:
  "filter (\<lambda>c. c \<noteq> []) (ro_last (coeng (classify (chunks_of tail)))) =
     filter (\<lambda>c. \<not> is_coeng_ro c) (coeng (classify (chunks_of tail))) @
     (if coeng (classify (chunks_of tail)) \<noteq> [] \<and>
         is_coeng_ro (last (coeng (classify (chunks_of tail))))
      then [last (coeng (classify (chunks_of tail)))] else []) @
     filter is_coeng_ro (butlast (coeng (classify (chunks_of tail))))"
  by (rule ro_last_nonempty) (simp add: coeng_bucket_nonempty)

section \<open>The order of the three fusions\<close>

text \<open>
  C6. The reassembled syllable U+1780 U+17C1 U+17B8 U+17C1 holds overlapping sources of
  the first and the second fusion. The program's order gives U+1780 U+17BE U+17C1;
  applying the second fusion before the first gives U+1780 U+17C1 U+17BE.
\<close>

theorem fusions_order_matters:
  "rejoin [0x1780, 0x17C1, 0x17B8, 0x17C1] = [0x1780, 0x17C1, 0x17B8, 0x17C1] \<and>
   fuse3 (fuse2 (fuse1 [0x1780, 0x17C1, 0x17B8, 0x17C1])) = [0x1780, 0x17BE, 0x17C1] \<and>
   fuse3 (fuse1 (fuse2 [0x1780, 0x17C1, 0x17B8, 0x17C1])) = [0x1780, 0x17C1, 0x17BE]"
  by code_simp

text \<open>
  C6 as the program has it. On a string in which no two fusion sources overlap, that
  is, in which none of U+17C1 U+17B8 U+17C1, U+17B8 U+17C1 U+17B8 and U+17B8 U+17C1 U+17B6
  occurs, each of the five other orders of the three replacements gives the result of
  the program's order.
\<close>

theorem fusions_commute:
  assumes "no_overlap s"
  shows "fuse3 (fuse1 (fuse2 s)) = fuse3 (fuse2 (fuse1 s)) \<and>
         fuse2 (fuse3 (fuse1 s)) = fuse3 (fuse2 (fuse1 s)) \<and>
         fuse2 (fuse1 (fuse3 s)) = fuse3 (fuse2 (fuse1 s)) \<and>
         fuse1 (fuse3 (fuse2 s)) = fuse3 (fuse2 (fuse1 s)) \<and>
         fuse1 (fuse2 (fuse3 s)) = fuse3 (fuse2 (fuse1 s))"
proof -
  have f1: "fuse1 s = fuse_pass True False False s"
    using fuse1_pass [OF assms, of False False] by (simp add: fuse_pass_none)
  have f2: "fuse2 s = fuse_pass False True False s"
    using fuse2_pass [OF assms, of False False] by (simp add: fuse_pass_none)
  have f3: "fuse3 s = fuse_pass False False True s"
    using fuse3_pass [OF assms, of False False] by (simp add: fuse_pass_none)
  have "fuse3 (fuse2 (fuse1 s)) = fuse_pass True True True s"
    by (simp add: f1 fuse2_pass [OF assms] fuse3_pass [OF assms])
  moreover have "fuse3 (fuse1 (fuse2 s)) = fuse_pass True True True s"
    by (simp add: f2 fuse1_pass [OF assms] fuse3_pass [OF assms])
  moreover have "fuse2 (fuse3 (fuse1 s)) = fuse_pass True True True s"
    by (simp add: f1 fuse3_pass [OF assms] fuse2_pass [OF assms])
  moreover have "fuse2 (fuse1 (fuse3 s)) = fuse_pass True True True s"
    by (simp add: f3 fuse1_pass [OF assms] fuse2_pass [OF assms])
  moreover have "fuse1 (fuse3 (fuse2 s)) = fuse_pass True True True s"
    by (simp add: f2 fuse3_pass [OF assms] fuse1_pass [OF assms])
  moreover have "fuse1 (fuse2 (fuse3 s)) = fuse_pass True True True s"
    by (simp add: f3 fuse2_pass [OF assms] fuse1_pass [OF assms])
  ultimately show ?thesis
    by simp
qed

theorem fusions_commute_witness:
  "no_overlap [0x1780, 0x17C1, 0x17B6, 0x17B8, 0x17C1, 0x17C1, 0x17B8] \<and>
   fuse1 (fuse2 (fuse3 [0x1780, 0x17C1, 0x17B6, 0x17B8, 0x17C1, 0x17C1, 0x17B8])) =
     [0x1780, 0x17C4, 0x17BE, 0x17BE] \<and>
   fuse3 (fuse2 (fuse1 [0x1780, 0x17C1, 0x17B6, 0x17B8, 0x17C1, 0x17C1, 0x17B8])) =
     [0x1780, 0x17C4, 0x17BE, 0x17BE]"
proof -
  have no: "no_overlap [0x1780, 0x17C1, 0x17B6, 0x17B8, 0x17C1, 0x17C1, 0x17B8]"
    by simp
  have "fuse3 (fuse2 (fuse1 [0x1780, 0x17C1, 0x17B6, 0x17B8, 0x17C1, 0x17C1, 0x17B8])) =
     [0x1780, 0x17C4, 0x17BE, 0x17BE]"
    by code_simp
  then show ?thesis
    using no fusions_commute [OF no] by simp
qed

section \<open>The length of the output\<close>

text \<open>
  C5. Code points are lost in \<open>reorderSyll\<close> apart from the fusions: a zero-width
  element matches none of the six tests and is dropped, a run of coengs is collapsed
  to one coeng, and an element equal to its successor in the reassembled list is
  deleted. In the three texts below no regularization rule fires and the string joined
  before the fusions is already shorter than the text.
\<close>

theorem reorderText_drops_code_points:
  "regularizeText [0x1780, 0x200B] = [0x1780, 0x200B] \<and>
   rejoin [0x1780, 0x200B] = [0x1780] \<and>
   reorderText [0x1780, 0x200B] = [0x1780] \<and>
   regularizeText [0x1780, 0x17D2, 0x17D2, 0x1781] = [0x1780, 0x17D2, 0x17D2, 0x1781] \<and>
   rejoin [0x1780, 0x17D2, 0x17D2, 0x1781] = [0x1780, 0x17D2, 0x1781] \<and>
   reorderText [0x1780, 0x17D2, 0x17D2, 0x1781] = [0x1780, 0x17D2, 0x1781] \<and>
   regularizeText [0x1780, 0x17B6, 0x17B6] = [0x1780, 0x17B6, 0x17B6] \<and>
   rejoin [0x1780, 0x17B6, 0x17B6] = [0x1780, 0x17B6] \<and>
   reorderText [0x1780, 0x17B6, 0x17B6] = [0x1780, 0x17B6]"
  by code_simp

text \<open>
  C5 as the program has it. Segmentation loses nothing: the syllables concatenate to
  the regularized text. \<open>reorderSyll\<close> never adds a code point, so the output of
  \<open>reorderText\<close> is at most as long as the regularized text. And the only removals
  before the fusions are the three named above: when every chunk of the tail passes
  one of the six tests, no chunk holds a run of two coengs and the duplicate loop
  blanks nothing, the string joined before the fusions is a permutation of the
  syllable.
\<close>

theorem reorderText_length:
  "concat (syllables t) = t \<and>
   length (reorderSyll syll) \<le> length syll \<and>
   length (reorderText t) \<le> length (regularizeText t) \<and>
   ((\<forall>c \<in> set (chunks_of (drop 1 syll)). classified c \<and> sub_COENG_run c = c) \<and>
    blank_dups (assemble syll) = assemble syll \<longrightarrow>
    mset (rejoin syll) = mset syll)"
proof -
  have "length (reorderText t) \<le> length (concat (syllables (regularizeText t)))"
    unfolding reorderText_def by (rule length_concat_map_reorderSyll)
  then have "length (reorderText t) \<le> length (regularizeText t)"
    by (simp add: syllables_concat)
  then show ?thesis
    using syllables_concat [of t] length_reorderSyll [of syll] mset_rejoin [of syll]
    by blast
qed

theorem reorderText_length_witness:
  "rejoin [0x1780, 0x17B6, 0x17D2, 0x1781, 0x17C9] = [0x1780, 0x17D2, 0x1781, 0x17C9, 0x17B6] \<and>
   mset (rejoin [0x1780, 0x17B6, 0x17D2, 0x1781, 0x17C9]) =
     mset [0x1780, 0x17B6, 0x17D2, 0x1781, 0x17C9] \<and>
   length (reorderText [0x1780, 0x200B, 0x17B4]) \<le> length (regularizeText [0x1780, 0x200B, 0x17B4])"
proof -
  have "(\<forall>c \<in> set (chunks_of (drop 1 [0x1780, 0x17B6, 0x17D2, 0x1781, 0x17C9])).
          classified c \<and> sub_COENG_run c = c) \<and>
        blank_dups (assemble [0x1780, 0x17B6, 0x17D2, 0x1781, 0x17C9]) =
          assemble [0x1780, 0x17B6, 0x17D2, 0x1781, 0x17C9]"
    by code_simp
  moreover have "rejoin [0x1780, 0x17B6, 0x17D2, 0x1781, 0x17C9] =
      [0x1780, 0x17D2, 0x1781, 0x17C9, 0x17B6]"
    by code_simp
  ultimately show ?thesis
    using reorderText_length [of "[0x1780, 0x200B, 0x17B4]" "[0x1780, 0x17B6, 0x17D2, 0x1781, 0x17C9]"]
    by blast
qed

section \<open>A second pass\<close>

text \<open>
  C1. \<open>reorderText\<close> is not idempotent. A fusion can produce a vowel equal to its
  neighbour, which only a second pass deletes; and two different coeng+ro chunks swap
  places at every pass.
\<close>

theorem reorderText_not_idempotent:
  "reorderText [0x1780, 0x17BE, 0x17C1, 0x17B8] = [0x1780, 0x17BE, 0x17BE] \<and>
   reorderText (reorderText [0x1780, 0x17BE, 0x17C1, 0x17B8]) = [0x1780, 0x17BE] \<and>
   reorderText [0x1780, 0x17D2, 0x179A, 0x17C9, 0x17D2, 0x179A] =
     [0x1780, 0x17D2, 0x179A, 0x17D2, 0x179A, 0x17C9] \<and>
   reorderText (reorderText [0x1780, 0x17D2, 0x179A, 0x17C9, 0x17D2, 0x179A]) =
     [0x1780, 0x17D2, 0x179A, 0x17C9, 0x17D2, 0x179A]"
  by code_simp

text \<open>
  C1 as the program has it. A second pass returns the result of the first exactly when,
  in every syllable of more than one code point that the regularized text is cut into,
  the reordered syllable has no two equal chunks next to each other and at most one
  coeng+ro chunk. Syllables in which the ro loop moves a chunk or a fusion fires are
  among them, as in the text below, where both happen.
\<close>

theorem reorderText_idempotent_iff_settled:
  "reorderText (reorderText x) = reorderText x \<longleftrightarrow>
   (\<forall>s \<in> set (syllables (regularizeText x)).
      length s > 1 \<and> re_match_class CONS_OR_INDEPVOWEL s \<longrightarrow> settled s)"
proof -
  have "(\<forall>s \<in> set (syllables (regularizeText x)).
      length s > 1 \<and> re_match_class CONS_OR_INDEPVOWEL s \<longrightarrow> settled s) \<longleftrightarrow>
    (\<forall>s \<in> set (re_split match_SYLLPAT [] (regularizeText x)).
      length s > 1 \<and> re_match_class CONS_OR_INDEPVOWEL s \<longrightarrow> settled s)"
    by (auto simp: syllables_def)
  moreover have "reorderText (reorderText x) = reordered (reordered (regularizeText x))"
    by (simp add: reorderText_reordered regularizeText_reorderText [unfolded reorderText_reordered])
  ultimately show ?thesis
    by (simp only: reordered_twice_iff reorderText_reordered)
qed

theorem reorderText_idempotent_iff_settled_witness:
  "reorderText [0x41, 0x1780, 0x17C1, 0x200B, 0x17B6, 0x17B6, 0x20, 0x1780, 0x17D2, 0x179A, 0x17CC, 0x17D2, 0x1781, 0x17C9] =
     [0x41, 0x1780, 0x17C4, 0x20, 0x1780, 0x17CC, 0x17D2, 0x1781, 0x17C9, 0x17D2, 0x179A] \<and>
   reorderText (reorderText [0x41, 0x1780, 0x17C1, 0x200B, 0x17B6, 0x17B6, 0x20, 0x1780, 0x17D2, 0x179A, 0x17CC, 0x17D2, 0x1781, 0x17C9]) =
     [0x41, 0x1780, 0x17C4, 0x20, 0x1780, 0x17CC, 0x17D2, 0x1781, 0x17C9, 0x17D2, 0x179A]"
proof -
  have "\<forall>s \<in> set (syllables (regularizeText
            [0x41, 0x1780, 0x17C1, 0x200B, 0x17B6, 0x17B6, 0x20, 0x1780, 0x17D2, 0x179A, 0x17CC, 0x17D2, 0x1781, 0x17C9])).
          length s > 1 \<and> re_match_class CONS_OR_INDEPVOWEL s \<longrightarrow> settled s"
    by code_simp
  moreover have "reorderText [0x41, 0x1780, 0x17C1, 0x200B, 0x17B6, 0x17B6, 0x20, 0x1780, 0x17D2, 0x179A, 0x17CC, 0x17D2, 0x1781, 0x17C9] =
     [0x41, 0x1780, 0x17C4, 0x20, 0x1780, 0x17CC, 0x17D2, 0x1781, 0x17C9, 0x17D2, 0x179A]"
    by code_simp
  ultimately show ?thesis
    using reorderText_idempotent_iff_settled
      [of "[0x41, 0x1780, 0x17C1, 0x200B, 0x17B6, 0x17B6, 0x20, 0x1780, 0x17D2, 0x179A, 0x17CC, 0x17D2, 0x1781, 0x17C9]"]
    by simp
qed

end
